theory Spec2Isabelle
  imports Main
begin

section \<open>Text: Python strings as lists of code points\<close>

text \<open>
  A Python \<open>str\<close> is a sequence of Unicode code points; \<open>len\<close> counts code points.
  A code point is a natural number here, a string a list of them.
\<close>

type_synonym ustr = "nat list"

definition of_ascii :: "string \<Rightarrow> ustr" where
  "of_ascii = map of_char"

text \<open>
  The character tables of the interpreter (they are not part of \<open>class_scraper.py\<close>):
  \<open>str.isspace\<close>, which is also what \<open>\s\<close> matches in a \<open>str\<close> pattern and what
  \<open>str.strip()\<close> removes, and the decimal digits (category Nd) that \<open>\d\<close> matches.
  Every block of decimal digits is ten consecutive code points; \<open>nd_zeros\<close> lists the
  zero of each block (Unicode 14.0).
\<close>

definition is_space :: "nat \<Rightarrow> bool" where
  "is_space c \<longleftrightarrow>
     (0x09 \<le> c \<and> c \<le> 0x0D) \<or> (0x1C \<le> c \<and> c \<le> 0x20) \<or> c = 0x85 \<or> c = 0xA0 \<or>
     c = 0x1680 \<or> (0x2000 \<le> c \<and> c \<le> 0x200A) \<or> c = 0x2028 \<or> c = 0x2029 \<or>
     c = 0x202F \<or> c = 0x205F \<or> c = 0x3000"

definition nd_zeros :: "nat list" where
  "nd_zeros =
    [0x30, 0x660, 0x6F0, 0x7C0, 0x966, 0x9E6, 0xA66, 0xAE6, 0xB66, 0xBE6, 0xC66, 0xCE6,
     0xD66, 0xDE6, 0xE50, 0xED0, 0xF20, 0x1040, 0x1090, 0x17E0, 0x1810, 0x1946, 0x19D0,
     0x1A80, 0x1A90, 0x1B50, 0x1BB0, 0x1C40, 0x1C50, 0xA620, 0xA8D0, 0xA900, 0xA9D0,
     0xA9F0, 0xAA50, 0xABF0, 0xFF10, 0x104A0, 0x10D30, 0x11066, 0x110F0, 0x11136,
     0x111D0, 0x112F0, 0x11450, 0x114D0, 0x11650, 0x116C0, 0x11730, 0x118E0, 0x11950,
     0x11C50, 0x11D50, 0x11DA0, 0x16A60, 0x16AC0, 0x16B50, 0x1D7CE, 0x1D7D8, 0x1D7E2,
     0x1D7EC, 0x1D7F6, 0x1E140, 0x1E2F0, 0x1E950, 0x1FBF0]"

definition is_digit :: "nat \<Rightarrow> bool" where
  "is_digit c \<longleftrightarrow> list_ex (\<lambda>z. z \<le> c \<and> c < z + 10) nd_zeros"

definition strip :: "ustr \<Rightarrow> ustr" where
  \<comment> \<open>\<open>str.strip()\<close>: leading and trailing whitespace removed\<close>
  "strip s = rev (dropWhile is_space (rev (dropWhile is_space s)))"

section \<open>The regular expressions of \<open>re\<close> that the script uses\<close>

text \<open>
  Character classes, and the operators that occur in \<open>header_pattern\<close> and in the
  whitespace pattern of \<open>re.sub\<close>. \<open>Plus\<close> and \<open>Star\<close> are the greedy \<open>+\<close> and \<open>*\<close>,
  \<open>LazyPlus\<close> is \<open>+?\<close> (\<open>LazyStar\<close> is its tail), \<open>Opt\<close> is the greedy \<open>?\<close>, \<open>Group\<close> a
  named group, \<open>Bol\<close> and \<open>Eol\<close> are \<open>^\<close> and \<open>$\<close> without the MULTILINE flag.
\<close>

datatype cls =
    Range nat nat    \<comment> \<open>\<open>[A-Z]\<close> is \<open>Range 0x41 0x5A\<close>\<close>
  | Lit nat          \<comment> \<open>an escaped literal such as \<open>\(\<close>\<close>
  | NotLit nat       \<comment> \<open>\<open>[^)]\<close>\<close>
  | Space            \<comment> \<open>\<open>\s\<close>\<close>
  | Digit            \<comment> \<open>\<open>\d\<close>\<close>
  | Dot              \<comment> \<open>\<open>.\<close> without DOTALL: anything but a newline\<close>

fun cls_match :: "cls \<Rightarrow> nat \<Rightarrow> bool" where
  "cls_match (Range lo hi) c = (lo \<le> c \<and> c \<le> hi)"
| "cls_match (Lit a) c = (c = a)"
| "cls_match (NotLit a) c = (c \<noteq> a)"
| "cls_match Space c = is_space c"
| "cls_match Digit c = is_digit c"
| "cls_match Dot c = (c \<noteq> 0x0A)"

datatype gname = G_code | G_title | G_credits | G_tags

datatype regex =
    Sym cls
  | Bol
  | Eol
  | Seq regex regex
  | Group gname regex
  | Opt regex
  | Star regex
  | Plus regex
  | LazyStar regex
  | LazyPlus regex

type_synonym caps = "gname \<Rightarrow> ustr option"

fun rsize :: "regex \<Rightarrow> nat" where
  "rsize (Sym k) = 1"
| "rsize Bol = 1"
| "rsize Eol = 1"
| "rsize (Seq r1 r2) = Suc (rsize r1 + rsize r2)"
| "rsize (Group g r) = Suc (rsize r)"
| "rsize (Opt r) = Suc (rsize r)"
| "rsize (Star r) = Suc (rsize r)"
| "rsize (Plus r) = Suc (Suc (rsize r))"
| "rsize (LazyStar r) = Suc (rsize r)"
| "rsize (LazyPlus r) = Suc (Suc (rsize r))"

text \<open>
  The backtracking matcher. \<open>matches n r s c\<close> matches \<open>r\<close> at the front of \<open>s\<close>, the
  rest of a subject of length \<open>n\<close>, with the groups \<open>c\<close> captured so far, and lists every
  way to match as the rest of the subject and the groups, in the order in which the
  engine tries them: a greedy repetition tries one more iteration before it stops, a
  lazy one stops before it tries one more. An iteration that consumes nothing ends
  the repetition.
\<close>

function matches :: "nat \<Rightarrow> regex \<Rightarrow> ustr \<Rightarrow> caps \<Rightarrow> (ustr \<times> caps) list" where
  "matches n (Sym k) s c =
     (case s of [] \<Rightarrow> [] | x # xs \<Rightarrow> if cls_match k x then [(xs, c)] else [])"
| "matches n Bol s c = (if length s = n then [(s, c)] else [])"
| "matches n Eol s c = (if s = [] \<or> s = [0x0A] then [(s, c)] else [])"
| "matches n (Seq r1 r2) s c =
     concat (map (\<lambda>(s', c'). matches n r2 s' c') (matches n r1 s c))"
| "matches n (Group g r) s c =
     map (\<lambda>(s', c'). (s', c'(g \<mapsto> take (length s - length s') s))) (matches n r s c)"
| "matches n (Opt r) s c = matches n r s c @ [(s, c)]"
| "matches n (Star r) s c =
     concat (map (\<lambda>(s', c'). if length s' < length s then matches n (Star r) s' c' else [])
                 (matches n r s c)) @ [(s, c)]"
| "matches n (Plus r) s c =
     concat (map (\<lambda>(s', c'). matches n (Star r) s' c') (matches n r s c))"
| "matches n (LazyStar r) s c =
     (s, c) # concat (map (\<lambda>(s', c'). if length s' < length s
                                         then matches n (LazyStar r) s' c' else [])
                          (matches n r s c))"
| "matches n (LazyPlus r) s c =
     concat (map (\<lambda>(s', c'). matches n (LazyStar r) s' c') (matches n r s c))"
  by pat_completeness auto
termination
  by (relation "inv_image (less_than <*lex*> less_than) (\<lambda>(n, r, s, c). (rsize r, length s))")
     auto

definition re_match :: "regex \<Rightarrow> ustr \<Rightarrow> caps option" where
  \<comment> \<open>\<open>pattern.match(s)\<close>: the first successful way to match at position 0, or \<open>None\<close>\<close>
  "re_match r s = (case matches (length s) r s Map.empty of [] \<Rightarrow> None | (s', c) # rest \<Rightarrow> Some c)"

function re_sub :: "nat \<Rightarrow> regex \<Rightarrow> ustr \<Rightarrow> ustr \<Rightarrow> ustr" where
  \<comment> \<open>\<open>re.sub(pattern, repl, s)\<close> for a pattern with no empty match, scanning the
      rest \<open>s\<close> of a subject of length \<open>n\<close>: the leftmost matches are replaced\<close>
  "re_sub n r repl s =
     (case s of
        [] \<Rightarrow> []
      | x # xs \<Rightarrow>
          (case matches n r s Map.empty of
             [] \<Rightarrow> x # re_sub n r repl xs
           | (s', c) # rest \<Rightarrow>
               if length s' < length s then repl @ re_sub n r repl s'
               else x # re_sub n r repl xs))"
  by pat_completeness auto
termination
  by (relation "measure (\<lambda>(n, r, repl, s). length s)") auto

definition replace1 :: "nat \<Rightarrow> ustr \<Rightarrow> ustr \<Rightarrow> ustr" where
  \<comment> \<open>\<open>s.replace(old, new)\<close> for a one-character \<open>old\<close>\<close>
  "replace1 old new s = concat (map (\<lambda>x. if x = old then new else [x]) s)"

section \<open>The header parser (lines 45 to 79 of \<open>class_scraper.py\<close>)\<close>

definition upper :: cls where
  "upper = Range 0x41 0x5A"

definition code_pattern :: regex where
  \<comment> \<open>\<open>[A-Z]+(?:\s+[A-Z]+)*\s+\d+[A-Z]?\<close>\<close>
  "code_pattern =
     Seq (Plus (Sym upper))
      (Seq (Star (Seq (Plus (Sym Space)) (Plus (Sym upper))))
        (Seq (Plus (Sym Space))
          (Seq (Plus (Sym Digit)) (Opt (Sym upper)))))"

definition tail_pattern :: regex where
  \<comment> \<open>\<open>\s*\((?P<credits>[^)]*)\)\s*(?P<tags>.*)?$\<close>\<close>
  "tail_pattern =
     Seq (Star (Sym Space))
      (Seq (Sym (Lit 0x28))
        (Seq (Group G_credits (Star (Sym (NotLit 0x29))))
          (Seq (Sym (Lit 0x29))
            (Seq (Star (Sym Space))
              (Seq (Opt (Group G_tags (Star (Sym Dot)))) Eol)))))"

definition header_pattern :: regex where
  \<comment> \<open>\<open>^(?P<code>...)\s+(?P<title>.+?)\s*\((?P<credits>[^)]*)\)\s*(?P<tags>.*)?$\<close>\<close>
  "header_pattern =
     Seq Bol
      (Seq (Group G_code code_pattern)
        (Seq (Plus (Sym Space))
          (Seq (Group G_title (LazyPlus (Sym Dot))) tail_pattern)))"

text \<open>
  \<open>unicodedata.normalize('NFKC', _)\<close> is a routine of the interpreter's library with
  tables of its own; the parser takes it as the parameter \<open>nfkc\<close>.
\<close>

definition header_norm :: "(ustr \<Rightarrow> ustr) \<Rightarrow> ustr \<Rightarrow> ustr" where
  "header_norm nfkc header =
     (let h1 = replace1 0xA0 [0x20] (nfkc header);
          h2 = re_sub (length h1) (Plus (Sym Space)) [0x20] h1
      in strip h2)"

record course_data =
  code :: ustr
  title :: "ustr option"
  credits :: "ustr option"

datatype py_error = AttributeError | ValueError ustr

text \<open>
  \<open>match.group(name)\<close> is \<open>None\<close> for a group that took no part in the match, and
  \<open>None.replace\<close> raises; the two other groups go into the dictionary as they are.
\<close>

definition parse_header :: "(ustr \<Rightarrow> ustr) \<Rightarrow> ustr \<Rightarrow> py_error + course_data option" where
  "parse_header nfkc header =
     (case re_match header_pattern (header_norm nfkc header) of
        None \<Rightarrow> Inr None
      | Some m \<Rightarrow>
          (case m G_code of
             None \<Rightarrow> Inl AttributeError
           | Some code_text \<Rightarrow>
               Inr (Some \<lparr>code = replace1 0x20 [] code_text,
                          title = m G_title, credits = m G_credits\<rparr>)))"

definition process_header ::
  "(ustr \<Rightarrow> ustr) \<Rightarrow> course_data list \<Rightarrow> ustr \<Rightarrow> py_error + course_data list" where
  \<comment> \<open>one header of the loop over the paragraphs: \<open>courses.append\<close> on a match\<close>
  "process_header nfkc courses header =
     (case parse_header nfkc header of
        Inl e \<Rightarrow> Inl e
      | Inr None \<Rightarrow> Inr courses
      | Inr (Some course) \<Rightarrow> Inr (courses @ [course]))"

text \<open>
  For the examples: the compatibility mappings of a few characters as \<open>unicodedata\<close>
  has them (the compatibility spaces, the fullwidth parentheses, the parenthesized
  digit one), every other character left as it is, which is what NFKC does to text
  made of ASCII and these characters.
\<close>

definition nfkc_sample :: "ustr \<Rightarrow> ustr" where
  "nfkc_sample s =
     concat (map (\<lambda>x. if x = 0xA0 \<or> (0x2000 \<le> x \<and> x \<le> 0x200A) \<or> x = 0x202F \<or> x = 0x205F \<or> x = 0x3000
                       then [0x20]
                       else if x = 0xFF08 then [0x28] else if x = 0xFF09 then [0x29]
                       else if x = 0x2474 then [0x28, 0x31, 0x29] else [x]) s)"

section \<open>Start-up and department discovery (lines 10 to 36)\<close>

type_synonym environ = "string \<Rightarrow> ustr option"

definition truthy_str :: "ustr option \<Rightarrow> bool" where
  \<comment> \<open>the truth value of what \<open>os.getenv\<close> returns: \<open>None\<close> and \<open>''\<close> are false\<close>
  "truthy_str v = (case v of None \<Rightarrow> False | Some s \<Rightarrow> s \<noteq> [])"

definition config_message :: ustr where
  "config_message = of_ascii ''SUPABASE_URL and SUPABASE_KEY must be set in .env file.''"

definition startup :: "environ \<Rightarrow> py_error + (ustr option \<times> ustr option)" where
  \<comment> \<open>\<open>env\<close> is the process environment after \<open>load_dotenv()\<close>; on success the two values
      go to \<open>create_client\<close>\<close>
  "startup env =
     (let supabase_url = env ''SUPABASE_URL'';
          supabase_key = env ''SUPABASE_KEY''
      in if \<not> truthy_str supabase_url \<or> \<not> truthy_str supabase_key
         then Inl (ValueError config_message)
         else Inr (supabase_url, supabase_key))"

definition base_url :: ustr where
  "base_url = of_ascii ''https://www.washington.edu/students/crscat/''"

record anchor =
  href :: "ustr option"    \<comment> \<open>\<open>a.get('href')\<close>\<close>
  inner_text :: ustr       \<comment> \<open>\<open>a.text\<close>\<close>

fun contains :: "ustr \<Rightarrow> ustr \<Rightarrow> bool" where
  \<comment> \<open>\<open>sub in s\<close>\<close>
  "contains sub [] = (sub = [])"
| "contains sub (x # xs) = (take (length sub) (x # xs) = sub \<or> contains sub xs)"

definition endswith :: "ustr \<Rightarrow> ustr \<Rightarrow> bool" where
  \<comment> \<open>\<open>s.endswith(suffix)\<close>\<close>
  "endswith s suffix \<longleftrightarrow>
     length suffix \<le> length s \<and> drop (length s - length suffix) s = suffix"

type_synonym department = "ustr \<times> ustr \<times> ustr"

definition department_step :: "department list \<Rightarrow> anchor \<Rightarrow> department list" where
  \<comment> \<open>the body of the loop over the anchors of the index page\<close>
  "department_step departments a =
     (case href a of
        None \<Rightarrow> departments
      | Some h \<Rightarrow>
          if h \<noteq> [] \<and> endswith h (of_ascii ''.html'') \<and> \<not> contains (of_ascii ''glossary'') h \<and>
             \<not> contains (of_ascii ''/'') h \<and> length h > 5
          then departments @ [(take (length h - 5) h, strip (inner_text a), base_url @ h)]
          else departments)"

definition find_departments :: "anchor list \<Rightarrow> department list" where
  "find_departments anchors = foldl department_step [] anchors"

definition index_sample :: "anchor list" where
  "index_sample =
     [\<lparr>href = Some (of_ascii ''anth.html''), inner_text = of_ascii '' Anthropology (ANTH) ''\<rparr>,
      \<lparr>href = Some (of_ascii ''glossary.html''), inner_text = of_ascii ''Glossary''\<rparr>,
      \<lparr>href = Some (of_ascii ''/students/reg.html''), inner_text = of_ascii ''Registration''\<rparr>,
      \<lparr>href = None, inner_text = of_ascii ''top''\<rparr>]"

definition env_sample :: environ where
  "env_sample = [''SUPABASE_URL'' \<mapsto> of_ascii ''https://x.supabase.co'', ''SUPABASE_KEY'' \<mapsto> of_ascii ''k'']"

definition env_empty_url :: environ where
  "env_empty_url = [''SUPABASE_URL'' \<mapsto> [], ''SUPABASE_KEY'' \<mapsto> of_ascii ''k'']"

section \<open>What a match means\<close>

text \<open>
  The declarative reading of the patterns, against which the matcher is checked:
  \<open>derives r u c c'\<close> says that \<open>r\<close> matches exactly the text \<open>u\<close> and takes the groups from
  \<open>c\<close> to \<open>c'\<close>. The anchors match the empty text; where they hold is the matcher's
  business.
\<close>

inductive derives :: "regex \<Rightarrow> ustr \<Rightarrow> caps \<Rightarrow> caps \<Rightarrow> bool" where
  d_Sym: "cls_match k x \<Longrightarrow> derives (Sym k) [x] c c"
| d_Bol: "derives Bol [] c c"
| d_Eol: "derives Eol [] c c"
| d_Seq: "derives r1 u c c1 \<Longrightarrow> derives r2 v c1 c2 \<Longrightarrow> derives (Seq r1 r2) (u @ v) c c2"
| d_Group: "derives r u c c' \<Longrightarrow> derives (Group g r) u c (c'(g \<mapsto> u))"
| d_Opt_some: "derives r u c c' \<Longrightarrow> derives (Opt r) u c c'"
| d_Opt_none: "derives (Opt r) [] c c"
| d_Star_step: "derives r u c c1 \<Longrightarrow> derives (Star r) v c1 c2 \<Longrightarrow> derives (Star r) (u @ v) c c2"
| d_Star_stop: "derives (Star r) [] c c"
| d_Plus: "derives r u c c1 \<Longrightarrow> derives (Star r) v c1 c2 \<Longrightarrow> derives (Plus r) (u @ v) c c2"
| d_LazyStar_step: "derives r u c c1 \<Longrightarrow> derives (LazyStar r) v c1 c2 \<Longrightarrow>
      derives (LazyStar r) (u @ v) c c2"
| d_LazyStar_stop: "derives (LazyStar r) [] c c"
| d_LazyPlus: "derives r u c c1 \<Longrightarrow> derives (LazyStar r) v c1 c2 \<Longrightarrow>
      derives (LazyPlus r) (u @ v) c c2"

text \<open>
  The shape of the text that the code group matches: a word of capitals, further
  words of capitals each after a run of whitespace, a run of whitespace, digits, and
  at most one capital.
\<close>

definition is_upper :: "nat \<Rightarrow> bool" where
  "is_upper x \<longleftrightarrow> 0x41 \<le> x \<and> x \<le> 0x5A"

definition word_blocks :: "(ustr \<times> ustr) list \<Rightarrow> bool" where
  "word_blocks bs \<longleftrightarrow>
     list_all (\<lambda>(w, a). w \<noteq> [] \<and> list_all is_space w \<and> a \<noteq> [] \<and> list_all is_upper a) bs"

definition code_shape :: "ustr \<Rightarrow> bool" where
  "code_shape u \<longleftrightarrow>
     (\<exists>a bs w d l. u = a @ concat (map (\<lambda>(w, a). w @ a) bs) @ w @ d @ l \<and>
        a \<noteq> [] \<and> list_all is_upper a \<and> word_blocks bs \<and> w \<noteq> [] \<and> list_all is_space w \<and>
        d \<noteq> [] \<and> list_all is_digit d \<and> (l = [] \<or> (\<exists>x. l = [x] \<and> is_upper x)))"

text \<open>
  What normalisation achieves: every whitespace character is a plain space, and no two
  whitespace characters are adjacent.
\<close>

fun adj_free :: "ustr \<Rightarrow> bool" where
  "adj_free [] = True"
| "adj_free [x] = True"
| "adj_free (x # y # r) = (\<not> (is_space x \<and> is_space y) \<and> adj_free (y # r))"

definition spaced :: "ustr \<Rightarrow> bool" where
  "spaced t \<longleftrightarrow> list_all (\<lambda>x. is_space x = (x = 0x20)) t \<and> adj_free t"

text \<open>The vocabulary of the claims about the parsed record.\<close>

fun join_sp :: "ustr list \<Rightarrow> ustr" where
  \<comment> \<open>\<open>' '.join(ws)\<close>\<close>
  "join_sp [] = []"
| "join_sp [w] = w"
| "join_sp (w # v # ws) = w @ 0x20 # join_sp (v # ws)"

definition code_parts :: "ustr list \<Rightarrow> ustr \<Rightarrow> ustr \<Rightarrow> bool" where
  \<comment> \<open>subject words of capitals, the digits of the number, its optional letter\<close>
  "code_parts ws ds l \<longleftrightarrow>
     ws \<noteq> [] \<and> list_all (\<lambda>w. w \<noteq> [] \<and> list_all is_upper w) ws \<and>
     ds \<noteq> [] \<and> list_all is_digit ds \<and> length l \<le> 1 \<and> list_all is_upper l"

definition code_form :: "ustr \<Rightarrow> bool" where
  \<comment> \<open>capitals, then digits, then at most one capital, and nothing else\<close>
  "code_form s =
     (let a = takeWhile is_upper s; r = dropWhile is_upper s;
          d = takeWhile is_digit r; l = dropWhile is_digit r
      in a \<noteq> [] \<and> d \<noteq> [] \<and> length l \<le> 1 \<and> list_all is_upper l)"

definition has_paren_group :: "ustr \<Rightarrow> bool" where
  \<comment> \<open>an opening parenthesis with a closing one somewhere after it\<close>
  "has_paren_group s \<longleftrightarrow> 0x29 \<in> set (dropWhile (\<lambda>x. x \<noteq> 0x28) s)"

section \<open>Scraping the departments (lines 49 to 90)\<close>

text \<open>
  What lies outside the script is a parameter: \<open>get_headers\<close> gives, for the URL of a
  department page, the first lines of its course paragraphs (the \<open>header\<close> of each
  pass of the inner loop), and \<open>execute k batch\<close> is the response of the table store to
  the insert of \<open>batch\<close>, the \<open>k\<close>-th insert of the run. The value of \<open>response.error\<close>
  is \<open>None\<close>, a string, or some other object with its truth value and its \<open>str()\<close>; a
  response may also have no such attribute.
\<close>

datatype pyval = PyNone | PyStr ustr | PyObj bool ustr

fun truthy :: "pyval \<Rightarrow> bool" where
  "truthy PyNone = False"
| "truthy (PyStr s) = (s \<noteq> [])"
| "truthy (PyObj b s) = b"

fun py_str :: "pyval \<Rightarrow> ustr" where
  "py_str PyNone = of_ascii ''None''"
| "py_str (PyStr s) = s"
| "py_str (PyObj b s) = s"

record response =
  error :: "pyval option"    \<comment> \<open>\<open>None\<close>: the response has no attribute \<open>error\<close>\<close>

record world =
  stdout :: "ustr list"                  \<comment> \<open>the lines printed so far\<close>
  inserts :: "course_data list list"     \<comment> \<open>the batches sent to the table \<open>uw_courses\<close>\<close>
  sleeps :: nat                          \<comment> \<open>the pauses of 0.1 s taken\<close>

fun str_nat :: "nat \<Rightarrow> ustr" where
  \<comment> \<open>\<open>str(n)\<close>\<close>
  "str_nat n = (if n < 10 then [0x30 + n] else str_nat (n div 10) @ [0x30 + n mod 10])"

fun collect :: "(ustr \<Rightarrow> ustr) \<Rightarrow> course_data list \<Rightarrow> ustr list \<Rightarrow> py_error + course_data list" where
  \<comment> \<open>the loop over the paragraphs of one page\<close>
  "collect nfkc courses [] = Inr courses"
| "collect nfkc courses (header # headers) =
     (case process_header nfkc courses header of
        Inl e \<Rightarrow> Inl e
      | Inr courses' \<Rightarrow> collect nfkc courses' headers)"

definition print :: "ustr \<Rightarrow> world \<Rightarrow> world" where
  "print line w = w\<lparr>stdout := stdout w @ [line]\<rparr>"

definition has_error :: "response \<Rightarrow> bool" where
  \<comment> \<open>\<open>hasattr(response, 'error') and response.error\<close>\<close>
  "has_error response = (case error response of None \<Rightarrow> False | Some v \<Rightarrow> truthy v)"

definition error_text :: "response \<Rightarrow> ustr" where
  "error_text response = (case error response of None \<Rightarrow> [] | Some v \<Rightarrow> py_str v)"

definition scrape_department ::
  "(ustr \<Rightarrow> ustr) \<Rightarrow> (ustr \<Rightarrow> ustr list) \<Rightarrow> (nat \<Rightarrow> course_data list \<Rightarrow> response) \<Rightarrow>
     world \<Rightarrow> department \<Rightarrow> py_error + world" where
  "scrape_department nfkc get_headers execute w dep =
     (case dep of (dep_abbrev, dep_name, dep_url) \<Rightarrow>
        let w1 = print (of_ascii ''Scraping '' @ dep_name @ of_ascii ''...'') w in
        case collect nfkc [] (get_headers dep_url) of
          Inl e \<Rightarrow> Inl e
        | Inr courses \<Rightarrow>
            let w2 =
              (if courses \<noteq> [] then
                 let response = execute (length (inserts w1)) courses;
                     w' = w1\<lparr>inserts := inserts w1 @ [courses]\<rparr>
                 in if has_error response
                    then print (of_ascii ''Error inserting courses for '' @ dep_name @
                                of_ascii '': '' @ error_text response) w'
                    else print (of_ascii ''Inserted '' @ str_nat (length courses) @
                                of_ascii '' courses for '' @ dep_name @ of_ascii ''.'') w'
               else w1)
            in Inr (w2\<lparr>sleeps := Suc (sleeps w2)\<rparr>))"

fun scrape_all ::
  "(ustr \<Rightarrow> ustr) \<Rightarrow> (ustr \<Rightarrow> ustr list) \<Rightarrow> (nat \<Rightarrow> course_data list \<Rightarrow> response) \<Rightarrow>
     world \<Rightarrow> department list \<Rightarrow> py_error + world" where
  "scrape_all nfkc get_headers execute w [] = Inr w"
| "scrape_all nfkc get_headers execute w (dep # deps) =
     (case scrape_department nfkc get_headers execute w dep of
        Inl e \<Rightarrow> Inl e
      | Inr w' \<Rightarrow> scrape_all nfkc get_headers execute w' deps)"

definition course_sample :: course_data where
  "course_sample = \<lparr>code = of_ascii ''BE2'', title = Some (of_ascii ''X''),
                     credits = Some (of_ascii ''5'')\<rparr>"

definition execute_failing :: "nat \<Rightarrow> course_data list \<Rightarrow> response" where
  "execute_failing k batch = \<lparr>error = Some (PyStr (of_ascii ''timeout''))\<rparr>"

definition headers_sample :: "ustr \<Rightarrow> ustr list" where
  "headers_sample url = [of_ascii ''B E 2 X (5)'']"

definition world0 :: world where
  "world0 = \<lparr>stdout = [], inserts = [], sleeps = 0\<rparr>"

text \<open>
  Two raw lines that differ only in their whitespace: \<open>ws_variant s t\<close> says that \<open>t\<close> is
  \<open>s\<close> with some of its plain spaces replaced, each by a run of one or more whitespace
  characters (a non-breaking space, several spaces, a tab, ...).
\<close>

inductive ws_variant :: "ustr \<Rightarrow> ustr \<Rightarrow> bool" where
  v_Nil: "ws_variant [] []"
| v_Keep: "ws_variant s t \<Longrightarrow> ws_variant (x # s) (x # t)"
| v_Repl: "ws_variant s t \<Longrightarrow> w \<noteq> [] \<Longrightarrow> list_all is_space w \<Longrightarrow>
           ws_variant (0x20 # s) (w @ t)"

text \<open>
  What is asked of the library's normalisation: a whitespace character is a boundary
  for it, and becomes whitespace.
\<close>

definition nfkc_keeps_whitespace :: "(ustr \<Rightarrow> ustr) \<Rightarrow> bool" where
  "nfkc_keeps_whitespace nfkc \<longleftrightarrow>
     (\<forall>a x b. is_space x \<longrightarrow> nfkc (a @ x # b) = nfkc a @ nfkc [x] @ nfkc b) \<and>
     (\<forall>x. is_space x \<longrightarrow> nfkc [x] \<noteq> [] \<and> list_all is_space (nfkc [x]))"

section \<open>Properties\<close>

subsection \<open>The examples of the specification\<close>

lemma nfkc_sample_ascii: "list_all (\<lambda>c. c < 128) s \<Longrightarrow> nfkc_sample s = s"
  by (induction s) (auto simp: nfkc_sample_def)

lemmas header_eval = of_ascii_def upper_def header_pattern_def code_pattern_def tail_pattern_def
  is_space_def is_digit_def nd_zeros_def parse_header_def re_match_def replace1_def strip_def
  matches.simps re_sub.simps

lemma header_norm_fixed: "nfkc s = s \<Longrightarrow> header_norm nfkc s = header_norm (\<lambda>x. x) s"
  by (simp add: header_norm_def)

text \<open>
  C2. The three example headers of the specification parse to the stated records:
  \<open>ANTH100\<close>, \<open>LARCH300\<close> and \<open>BE200\<close>, each with its title and the credits \<open>5\<close>. The
  normalisation of the library is only asked to leave ASCII text unchanged.
\<close>

theorem spec_examples:
  assumes ascii: "\<And>s. list_all (\<lambda>c. c < 128) s \<Longrightarrow> nfkc s = s"
  shows "parse_header nfkc (of_ascii ''ANTH 100 Introduction to Anthropology (5) SSc'') =
           Inr (Some \<lparr>code = of_ascii ''ANTH100'',
                      title = Some (of_ascii ''Introduction to Anthropology''),
                      credits = Some (of_ascii ''5'')\<rparr>) \<and>
         parse_header nfkc (of_ascii ''L ARCH 300 Advanced Landscape Topics (5) I&S'') =
           Inr (Some \<lparr>code = of_ascii ''LARCH300'',
                      title = Some (of_ascii ''Advanced Landscape Topics''),
                      credits = Some (of_ascii ''5'')\<rparr>) \<and>
         parse_header nfkc (of_ascii ''B E 200 Built Environment Foundations (5)'') =
           Inr (Some \<lparr>code = of_ascii ''BE200'',
                      title = Some (of_ascii ''Built Environment Foundations''),
                      credits = Some (of_ascii ''5'')\<rparr>)"
proof -
  have n1: "nfkc (of_ascii ''ANTH 100 Introduction to Anthropology (5) SSc'') =
            of_ascii ''ANTH 100 Introduction to Anthropology (5) SSc''"
    by (rule ascii) (simp add: of_ascii_def)
  have n2: "nfkc (of_ascii ''L ARCH 300 Advanced Landscape Topics (5) I&S'') =
            of_ascii ''L ARCH 300 Advanced Landscape Topics (5) I&S''"
    by (rule ascii) (simp add: of_ascii_def)
  have n3: "nfkc (of_ascii ''B E 200 Built Environment Foundations (5)'') =
            of_ascii ''B E 200 Built Environment Foundations (5)''"
    by (rule ascii) (simp add: of_ascii_def)
  have p1: "parse_header nfkc (of_ascii ''ANTH 100 Introduction to Anthropology (5) SSc'') =
           Inr (Some \<lparr>code = of_ascii ''ANTH100'',
                      title = Some (of_ascii ''Introduction to Anthropology''),
                      credits = Some (of_ascii ''5'')\<rparr>)"
    unfolding parse_header_def header_norm_fixed [of nfkc, OF n1] by (simp add: header_eval header_norm_def)
  have p2: "parse_header nfkc (of_ascii ''L ARCH 300 Advanced Landscape Topics (5) I&S'') =
           Inr (Some \<lparr>code = of_ascii ''LARCH300'',
                      title = Some (of_ascii ''Advanced Landscape Topics''),
                      credits = Some (of_ascii ''5'')\<rparr>)"
    unfolding parse_header_def header_norm_fixed [of nfkc, OF n2] by (simp add: header_eval header_norm_def)
  have p3: "parse_header nfkc (of_ascii ''B E 200 Built Environment Foundations (5)'') =
           Inr (Some \<lparr>code = of_ascii ''BE200'',
                      title = Some (of_ascii ''Built Environment Foundations''),
                      credits = Some (of_ascii ''5'')\<rparr>)"
    unfolding parse_header_def header_norm_fixed [of nfkc, OF n3] by (simp add: header_eval header_norm_def)
  from p1 p2 p3 show ?thesis by blast
qed

theorem spec_examples_witness:
  "parse_header nfkc_sample (of_ascii ''B E 200 Built Environment Foundations (5)'') =
           Inr (Some \<lparr>code = of_ascii ''BE200'',
                      title = Some (of_ascii ''Built Environment Foundations''),
                      credits = Some (of_ascii ''5'')\<rparr>)"
  using spec_examples [of nfkc_sample] nfkc_sample_ascii by blast

subsection \<open>Department discovery\<close>

text \<open>\<open>contains\<close> is the substring test.\<close>

lemma contains_iff: "contains sub s \<longleftrightarrow> (\<exists>p q. s = p @ sub @ q)"
proof (induction s)
  case Nil
  show ?case by auto
next
  case (Cons x xs)
  show ?case
  proof
    assume "contains sub (x # xs)"
    then consider "take (length sub) (x # xs) = sub" | "contains sub xs" by auto
    then show "\<exists>p q. x # xs = p @ sub @ q"
    proof cases
      case 1
      then have "x # xs = [] @ sub @ drop (length sub) (x # xs)"
        by (metis append_Nil append_take_drop_id)
      then show ?thesis by blast
    next
      case 2
      then obtain p q where "xs = p @ sub @ q" using Cons.IH by blast
      then have "x # xs = (x # p) @ sub @ q" by simp
      then show ?thesis by blast
    qed
  next
    assume "\<exists>p q. x # xs = p @ sub @ q"
    then obtain p q where pq: "x # xs = p @ sub @ q" by blast
    show "contains sub (x # xs)"
    proof (cases p)
      case Nil
      then have "take (length sub) (x # xs) = sub" using pq by simp
      then show ?thesis by simp
    next
      case (Cons y p')
      then have "xs = p' @ sub @ q" using pq by simp
      then have "contains sub xs" using Cons.IH by blast
      then show ?thesis by simp
    qed
  qed
qed

lemma department_step_sound:
  assumes inv: "\<forall>(ab, nm, url) \<in> set ds. \<exists>a \<in> A. \<exists>h. href a = Some h \<and>
           url = base_url @ h \<and> ab = take (length h - 5) h \<and>
           \<not> contains (of_ascii ''glossary'') h \<and> \<not> contains (of_ascii ''/'') h"
    and a: "a \<in> A"
  shows "\<forall>(ab, nm, url) \<in> set (department_step ds a). \<exists>a \<in> A. \<exists>h. href a = Some h \<and>
           url = base_url @ h \<and> ab = take (length h - 5) h \<and>
           \<not> contains (of_ascii ''glossary'') h \<and> \<not> contains (of_ascii ''/'') h"
proof (cases "href a")
  case None
  then show ?thesis using inv by (simp add: department_step_def)
next
  case (Some h)
  show ?thesis
  proof (cases "h \<noteq> [] \<and> endswith h (of_ascii ''.html'') \<and> \<not> contains (of_ascii ''glossary'') h \<and>
             \<not> contains (of_ascii ''/'') h \<and> length h > 5")
    case False
    then show ?thesis using inv Some by (auto simp: department_step_def)
  next
    case True
    then have eq: "department_step ds a =
        ds @ [(take (length h - 5) h, strip (inner_text a), base_url @ h)]"
      using Some by (simp add: department_step_def)
    have new: "\<exists>a \<in> A. \<exists>h'. href a = Some h' \<and> base_url @ h = base_url @ h' \<and>
           take (length h - 5) h = take (length h' - 5) h' \<and>
           \<not> contains (of_ascii ''glossary'') h' \<and> \<not> contains (of_ascii ''/'') h'"
      using a Some True by blast
    show ?thesis unfolding eq using inv new by simp
  qed
qed

lemma foldl_department_step_sound:
  assumes "\<forall>(ab, nm, url) \<in> set ds. \<exists>a \<in> A. \<exists>h. href a = Some h \<and>
           url = base_url @ h \<and> ab = take (length h - 5) h \<and>
           \<not> contains (of_ascii ''glossary'') h \<and> \<not> contains (of_ascii ''/'') h"
    and "set as \<subseteq> A"
  shows "\<forall>(ab, nm, url) \<in> set (foldl department_step ds as). \<exists>a \<in> A. \<exists>h. href a = Some h \<and>
           url = base_url @ h \<and> ab = take (length h - 5) h \<and>
           \<not> contains (of_ascii ''glossary'') h \<and> \<not> contains (of_ascii ''/'') h"
  using assms
proof (induction as arbitrary: ds)
  case Nil
  then show ?case by simp
next
  case (Cons a as)
  have "a \<in> A" using Cons.prems(2) by simp
  from department_step_sound [OF Cons.prems(1) this] Cons.prems(2)
  show ?case by (simp add: Cons.IH)
qed

text \<open>
  C6. An anchor whose href contains \<open>glossary\<close> or a \<open>/\<close> adds no department, and every
  discovered department comes from an anchor of the page whose href, the part of its
  URL after the base URL, contains neither.
\<close>

theorem departments_exclude_glossary_and_paths:
  "(\<forall>(ab, nm, url) \<in> set (find_departments anchors).
      \<exists>a \<in> set anchors. \<exists>h. href a = Some h \<and> url = base_url @ h \<and>
        ab = take (length h - 5) h \<and>
        \<not> contains (of_ascii ''glossary'') h \<and> \<not> contains (of_ascii ''/'') h) \<and>
   (\<forall>h. href a = Some h \<and> (contains (of_ascii ''glossary'') h \<or> contains (of_ascii ''/'') h)
      \<longrightarrow> department_step departments a = departments)"
proof
  show "\<forall>(ab, nm, url) \<in> set (find_departments anchors).
      \<exists>a \<in> set anchors. \<exists>h. href a = Some h \<and> url = base_url @ h \<and>
        ab = take (length h - 5) h \<and>
        \<not> contains (of_ascii ''glossary'') h \<and> \<not> contains (of_ascii ''/'') h"
    unfolding find_departments_def
    by (rule foldl_department_step_sound) simp_all
  show "\<forall>h. href a = Some h \<and> (contains (of_ascii ''glossary'') h \<or> contains (of_ascii ''/'') h)
      \<longrightarrow> department_step departments a = departments"
    by (auto simp: department_step_def)
qed

theorem departments_exclude_glossary_and_paths_witness:
  "find_departments index_sample =
     [(of_ascii ''anth'', of_ascii ''Anthropology (ANTH)'',
       of_ascii ''https://www.washington.edu/students/crscat/anth.html'')] \<and>
   contains (of_ascii ''glossary'') (of_ascii ''glossary.html'') \<and>
   department_step [] \<lparr>href = Some (of_ascii ''glossary.html''), inner_text = of_ascii ''Glossary''\<rparr> = []"
proof -
  have c: "contains (of_ascii ''glossary'') (of_ascii ''glossary.html'')"
    by (simp add: of_ascii_def)
  have 1: "find_departments index_sample =
     [(of_ascii ''anth'', of_ascii ''Anthropology (ANTH)'',
       of_ascii ''https://www.washington.edu/students/crscat/anth.html'')]"
    by (simp add: find_departments_def index_sample_def department_step_def of_ascii_def
        endswith_def base_url_def strip_def is_space_def)
  have "department_step [] \<lparr>href = Some (of_ascii ''glossary.html''), inner_text = of_ascii ''Glossary''\<rparr> = []"
    by (rule departments_exclude_glossary_and_paths
          [of "[]" "\<lparr>href = Some (of_ascii ''glossary.html''), inner_text = of_ascii ''Glossary''\<rparr>" "[]",
           THEN conjunct2, rule_format, of "of_ascii ''glossary.html''"])
       (simp add: c)
  with c 1 show ?thesis by blast
qed

subsection \<open>Start-up\<close>

text \<open>
  C7, as the code has it. Start-up raises \<open>ValueError\<close> when either value is absent from
  the environment or is the empty string; when both are present and not empty it
  raises nothing and goes on with the two values. (A value that is present but empty
  is refused as well: the test is on the truth value of what \<open>os.getenv\<close> returns.)
\<close>

theorem startup_fails_unless_set:
  "(env ''SUPABASE_URL'' = None \<or> env ''SUPABASE_URL'' = Some [] \<or>
    env ''SUPABASE_KEY'' = None \<or> env ''SUPABASE_KEY'' = Some []
      \<longrightarrow> startup env = Inl (ValueError config_message)) \<and>
   (\<forall>u k. env ''SUPABASE_URL'' = Some u \<and> u \<noteq> [] \<and> env ''SUPABASE_KEY'' = Some k \<and> k \<noteq> []
      \<longrightarrow> startup env = Inr (Some u, Some k))"
  by (auto simp: startup_def truthy_str_def Let_def split: option.splits)

theorem startup_fails_unless_set_witness:
  "startup env_sample = Inr (Some (of_ascii ''https://x.supabase.co''), Some (of_ascii ''k'')) \<and>
   startup env_empty_url = Inl (ValueError config_message)"
  using startup_fails_unless_set [of env_sample] startup_fails_unless_set [of env_empty_url]
  by (simp add: env_sample_def env_empty_url_def of_ascii_def)

theorem startup_empty_value_counterexample:
  "env_empty_url ''SUPABASE_URL'' \<noteq> None \<and> env_empty_url ''SUPABASE_KEY'' \<noteq> None \<and>
   startup env_empty_url = Inl (ValueError config_message)"
  by (simp add: env_empty_url_def startup_def truthy_str_def)

subsection \<open>The matcher is sound for the declarative reading\<close>

declare matches.simps [simp del]

lemma in_matches_Sym:
  "(s', c') \<in> set (matches n (Sym k) s c) \<longleftrightarrow> (\<exists>x. s = x # s' \<and> cls_match k x \<and> c' = c)"
  by (cases s) (auto simp: matches.simps(1))

lemma in_matches_Seq:
  "(s', c') \<in> set (matches n (Seq r1 r2) s c) \<longleftrightarrow>
     (\<exists>s1 c1. (s1, c1) \<in> set (matches n r1 s c) \<and> (s', c') \<in> set (matches n r2 s1 c1))"
  by (subst matches.simps) auto

lemma in_matches_Group:
  "(s', c') \<in> set (matches n (Group g r) s c) \<longleftrightarrow>
     (\<exists>c1. (s', c1) \<in> set (matches n r s c) \<and> c' = c1(g \<mapsto> take (length s - length s') s))"
  by (subst matches.simps) auto

lemma in_matches_Opt:
  "(s', c') \<in> set (matches n (Opt r) s c) \<longleftrightarrow>
     (s', c') \<in> set (matches n r s c) \<or> (s' = s \<and> c' = c)"
  by (subst matches.simps) auto

lemma in_matches_Star:
  "(s', c') \<in> set (matches n (Star r) s c) \<longleftrightarrow>
     (\<exists>s1 c1. (s1, c1) \<in> set (matches n r s c) \<and> length s1 < length s \<and>
              (s', c') \<in> set (matches n (Star r) s1 c1)) \<or> (s' = s \<and> c' = c)"
  by (subst matches.simps) (auto split: if_splits)

lemma in_matches_Plus:
  "(s', c') \<in> set (matches n (Plus r) s c) \<longleftrightarrow>
     (\<exists>s1 c1. (s1, c1) \<in> set (matches n r s c) \<and> (s', c') \<in> set (matches n (Star r) s1 c1))"
  by (subst matches.simps) auto

lemma in_matches_LazyStar:
  "(s', c') \<in> set (matches n (LazyStar r) s c) \<longleftrightarrow>
     (\<exists>s1 c1. (s1, c1) \<in> set (matches n r s c) \<and> length s1 < length s \<and>
              (s', c') \<in> set (matches n (LazyStar r) s1 c1)) \<or> (s' = s \<and> c' = c)"
  by (subst matches.simps) (auto split: if_splits)

lemma in_matches_LazyPlus:
  "(s', c') \<in> set (matches n (LazyPlus r) s c) \<longleftrightarrow>
     (\<exists>s1 c1. (s1, c1) \<in> set (matches n r s c) \<and>
              (s', c') \<in> set (matches n (LazyStar r) s1 c1))"
  by (subst matches.simps) auto

lemma matches_sound:
  "(s', c') \<in> set (matches n r s c) \<Longrightarrow> \<exists>u. s = u @ s' \<and> derives r u c c'"
proof (induction n r s c arbitrary: s' c' rule: matches.induct)
  case (1 n k s c)
  then show ?case
    by (auto simp: in_matches_Sym intro: d_Sym)
next
  case (2 n s c)
  then show ?case by (auto simp: matches.simps split: if_splits intro: d_Bol)
next
  case (3 n s c)
  then show ?case by (auto simp: matches.simps split: if_splits intro: d_Eol)
next
  case (4 n r1 r2 s c)
  from "4.prems" obtain s1 c1 where m1: "(s1, c1) \<in> set (matches n r1 s c)"
    and m2: "(s', c') \<in> set (matches n r2 s1 c1)" by (auto simp: in_matches_Seq)
  from "4.IH"(1) [OF m1] obtain u where u: "s = u @ s1" "derives r1 u c c1" by blast
  from "4.IH"(2) [OF m1 refl m2] obtain v where v: "s1 = v @ s'" "derives r2 v c1 c'" by blast
  have "s = (u @ v) @ s'" using u v by simp
  moreover have "derives (Seq r1 r2) (u @ v) c c'" using u v by (blast intro: d_Seq)
  ultimately show ?case by blast
next
  case (5 n g r s c)
  from "5.prems" obtain c1 where m: "(s', c1) \<in> set (matches n r s c)"
    and c': "c' = c1(g \<mapsto> take (length s - length s') s)" by (auto simp: in_matches_Group)
  from "5.IH" [OF m] obtain u where u: "s = u @ s'" "derives r u c c1" by blast
  have "take (length s - length s') s = u" using u(1) by simp
  then have "derives (Group g r) u c c'" using u(2) c' by (auto intro: d_Group)
  then show ?case using u(1) by blast
next
  case (6 n r s c)
  from "6.prems" consider "(s', c') \<in> set (matches n r s c)" | "s' = s" "c' = c"
    by (auto simp: in_matches_Opt)
  then show ?case
  proof cases
    case 1
    from "6.IH" [OF 1] show ?thesis by (blast intro: d_Opt_some)
  next
    case 2
    then show ?thesis by (auto intro: d_Opt_none)
  qed
next
  case (7 n r s c)
  from "7.prems" consider
      (step) s1 c1 where "(s1, c1) \<in> set (matches n r s c)" "length s1 < length s"
        "(s', c') \<in> set (matches n (Star r) s1 c1)"
    | (stop) "s' = s" "c' = c"
    by (subst (asm) in_matches_Star) blast
  then show ?case
  proof cases
    case step
    from "7.IH"(1) [OF step(1)] obtain u where u: "s = u @ s1" "derives r u c c1" by blast
    from "7.IH"(2) [OF step(1) refl step(2) step(3)]
    obtain v where v: "s1 = v @ s'" "derives (Star r) v c1 c'" by blast
    have "s = (u @ v) @ s'" using u v by simp
    moreover have "derives (Star r) (u @ v) c c'" using u v by (blast intro: d_Star_step)
    ultimately show ?thesis by blast
  next
    case stop
    then show ?thesis by (auto intro: d_Star_stop)
  qed
next
  case (8 n r s c)
  from "8.prems" obtain s1 c1 where m1: "(s1, c1) \<in> set (matches n r s c)"
    and m2: "(s', c') \<in> set (matches n (Star r) s1 c1)" by (auto simp: in_matches_Plus)
  from "8.IH"(1) [OF m1] obtain u where u: "s = u @ s1" "derives r u c c1" by blast
  from "8.IH"(2) [OF m1 refl m2] obtain v where v: "s1 = v @ s'" "derives (Star r) v c1 c'"
    by blast
  have "s = (u @ v) @ s'" using u v by simp
  moreover have "derives (Plus r) (u @ v) c c'" using u v by (blast intro: d_Plus)
  ultimately show ?case by blast
next
  case (9 n r s c)
  from "9.prems" consider
      (step) s1 c1 where "(s1, c1) \<in> set (matches n r s c)" "length s1 < length s"
        "(s', c') \<in> set (matches n (LazyStar r) s1 c1)"
    | (stop) "s' = s" "c' = c"
    by (subst (asm) in_matches_LazyStar) blast
  then show ?case
  proof cases
    case step
    from "9.IH"(1) [OF step(1)] obtain u where u: "s = u @ s1" "derives r u c c1" by blast
    from "9.IH"(2) [OF step(1) refl step(2) step(3)]
    obtain v where v: "s1 = v @ s'" "derives (LazyStar r) v c1 c'" by blast
    have "s = (u @ v) @ s'" using u v by simp
    moreover have "derives (LazyStar r) (u @ v) c c'" using u v by (blast intro: d_LazyStar_step)
    ultimately show ?thesis by blast
  next
    case stop
    then show ?thesis by (auto intro: d_LazyStar_stop)
  qed
next
  case (10 n r s c)
  from "10.prems" obtain s1 c1 where m1: "(s1, c1) \<in> set (matches n r s c)"
    and m2: "(s', c') \<in> set (matches n (LazyStar r) s1 c1)"
    by (auto simp: in_matches_LazyPlus)
  from "10.IH"(1) [OF m1] obtain u where u: "s = u @ s1" "derives r u c c1" by blast
  from "10.IH"(2) [OF m1 refl m2] obtain v where v: "s1 = v @ s'" "derives (LazyStar r) v c1 c'"
    by blast
  have "s = (u @ v) @ s'" using u v by simp
  moreover have "derives (LazyPlus r) (u @ v) c c'" using u v by (blast intro: d_LazyPlus)
  ultimately show ?case by blast
qed

subsection \<open>The shape of a header that matches\<close>

inductive_cases derives_SymE: "derives (Sym k) u c c'"
inductive_cases derives_BolE: "derives Bol u c c'"
inductive_cases derives_EolE: "derives Eol u c c'"
inductive_cases derives_SeqE: "derives (Seq r1 r2) u c c'"
inductive_cases derives_GroupE: "derives (Group g r) u c c'"
inductive_cases derives_OptE: "derives (Opt r) u c c'"
inductive_cases derives_PlusE: "derives (Plus r) u c c'"
inductive_cases derives_LazyPlusE: "derives (LazyPlus r) u c c'"

lemma derives_Star_Sym:
  "derives r u c c' \<Longrightarrow> r = Star (Sym k) \<Longrightarrow> c' = c \<and> list_all (cls_match k) u"
proof (induction rule: derives.induct)
  case (d_Star_step r u c c1 v c2)
  then show ?case by (auto elim: derives_SymE)
qed auto

lemma derives_LazyStar_Sym:
  "derives r u c c' \<Longrightarrow> r = LazyStar (Sym k) \<Longrightarrow> c' = c \<and> list_all (cls_match k) u"
proof (induction rule: derives.induct)
  case (d_LazyStar_step r u c c1 v c2)
  then show ?case by (auto elim: derives_SymE)
qed auto

lemma derives_Plus_Sym:
  assumes "derives (Plus (Sym k)) u c c'"
  shows "c' = c \<and> u \<noteq> [] \<and> list_all (cls_match k) u"
  using assms
  by (auto elim!: derives_PlusE derives_SymE dest: derives_Star_Sym)

lemma derives_LazyPlus_Sym:
  assumes "derives (LazyPlus (Sym k)) u c c'"
  shows "c' = c \<and> u \<noteq> [] \<and> list_all (cls_match k) u"
  using assms
  by (auto elim!: derives_LazyPlusE derives_SymE dest: derives_LazyStar_Sym)

lemma derives_more_words:
  "derives r u c c' \<Longrightarrow> r = Star (Seq (Plus (Sym Space)) (Plus (Sym upper))) \<Longrightarrow>
     c' = c \<and> (\<exists>bs. u = concat (map (\<lambda>(w, a). w @ a) bs) \<and> word_blocks bs)"
proof (induction rule: derives.induct)
  case (d_Star_step r u c c1 v c2)
  then have r: "r = Seq (Plus (Sym Space)) (Plus (Sym upper))" by simp
  from d_Star_step.hyps(1) [unfolded r]
  obtain w a where wa: "u = w @ a" "c1 = c" "w \<noteq> []" "list_all is_space w"
      "a \<noteq> []" "list_all is_upper a"
    by (auto elim!: derives_SeqE dest!: derives_Plus_Sym
             simp: upper_def is_upper_def list_all_iff)
  from d_Star_step.IH(2) d_Star_step.prems
  obtain bs where bs: "c2 = c1" "v = concat (map (\<lambda>(w, a). w @ a) bs)" "word_blocks bs"
    by auto
  have "u @ v = concat (map (\<lambda>(w, a). w @ a) ((w, a) # bs))" using wa bs by simp
  moreover have "word_blocks ((w, a) # bs)" using wa bs by (simp add: word_blocks_def)
  ultimately show ?case using wa bs by blast
next
  case (d_Star_stop r c)
  have "[] = concat (map (\<lambda>(w, a). w @ a) []) \<and> word_blocks []"
    by (simp add: word_blocks_def)
  then show ?case by blast
qed auto

lemma derives_code_pattern:
  assumes "derives code_pattern u c c'"
  shows "c' = c \<and> code_shape u"
proof -
  from assms obtain a m w d l c1 c2 c3 c4 where
    u: "u = a @ m @ w @ d @ l" and
    a: "derives (Plus (Sym upper)) a c c1" and
    m: "derives (Star (Seq (Plus (Sym Space)) (Plus (Sym upper)))) m c1 c2" and
    w: "derives (Plus (Sym Space)) w c2 c3" and
    d: "derives (Plus (Sym Digit)) d c3 c4" and
    l: "derives (Opt (Sym upper)) l c4 c'"
    unfolding code_pattern_def by (auto elim!: derives_SeqE)
  from derives_Plus_Sym [OF a] have a': "c1 = c" "a \<noteq> []" "list_all is_upper a"
    by (auto simp: upper_def is_upper_def list_all_iff)
  from derives_more_words [OF m refl] obtain bs where
    m': "c2 = c1" "m = concat (map (\<lambda>(w, a). w @ a) bs)" "word_blocks bs" by blast
  from derives_Plus_Sym [OF w] have w': "c3 = c2" "w \<noteq> []" "list_all is_space w"
    by (auto simp: list_all_iff)
  from derives_Plus_Sym [OF d] have d': "c4 = c3" "d \<noteq> []" "list_all is_digit d"
    by (auto simp: list_all_iff)
  from l have l': "c' = c4" "l = [] \<or> (\<exists>x. l = [x] \<and> is_upper x)"
    by (auto elim!: derives_OptE derives_SymE simp: upper_def is_upper_def)
  have "code_shape u" unfolding code_shape_def using u a' m' w' d' l' by blast
  then show ?thesis using a' m' w' d' l' by simp
qed


lemma derives_tail_pattern:
  assumes "derives tail_pattern v c c'"
  shows "\<exists>w2 credits_text post. v = w2 @ [0x28] @ credits_text @ [0x29] @ post \<and>
           list_all is_space w2 \<and> 0x29 \<notin> set credits_text \<and>
           c' G_credits = Some credits_text \<and> c' G_code = c G_code \<and> c' G_title = c G_title"
proof -
  from assms obtain w2 lp cr rp w3 tg e c1 c2 c3 c4 c5 c6 where
    v: "v = w2 @ lp @ cr @ rp @ w3 @ tg @ e" and
    w2: "derives (Star (Sym Space)) w2 c c1" and
    lp: "derives (Sym (Lit 0x28)) lp c1 c2" and
    cr: "derives (Group G_credits (Star (Sym (NotLit 0x29)))) cr c2 c3" and
    rp: "derives (Sym (Lit 0x29)) rp c3 c4" and
    w3: "derives (Star (Sym Space)) w3 c4 c5" and
    tg: "derives (Opt (Group G_tags (Star (Sym Dot)))) tg c5 c6" and
    e: "derives Eol e c6 c'"
    unfolding tail_pattern_def by (auto elim!: derives_SeqE)
  from derives_Star_Sym [OF w2 refl] have w2': "c1 = c" "list_all is_space w2"
    by (auto simp: list_all_iff)
  from lp have lp': "c2 = c1" "lp = [0x28]" by (auto elim!: derives_SymE)
  from cr obtain c2' where cr0: "derives (Star (Sym (NotLit 0x29))) cr c2 c2'"
    and c3: "c3 = c2'(G_credits \<mapsto> cr)" by (auto elim!: derives_GroupE)
  from derives_Star_Sym [OF cr0 refl] have cr': "c2' = c2" "0x29 \<notin> set cr"
    by (auto simp: list_all_iff)
  from rp have rp': "c4 = c3" "rp = [0x29]" by (auto elim!: derives_SymE)
  from derives_Star_Sym [OF w3 refl] have w3': "c5 = c4" by simp
  have tg': "c6 = c5 \<or> (\<exists>t. c6 = c5(G_tags \<mapsto> t))"
    using tg
  proof (rule derives_OptE)
    assume "derives (Group G_tags (Star (Sym Dot))) tg c5 c6"
    then obtain c5' where "derives (Star (Sym Dot)) tg c5 c5'" "c6 = c5'(G_tags \<mapsto> tg)"
      by (auto elim!: derives_GroupE)
    then show ?thesis using derives_Star_Sym [of "Star (Sym Dot)" tg c5 c5' Dot] by blast
  next
    assume "c6 = c5"
    then show ?thesis by simp
  qed
  from e have e': "c' = c6" by (auto elim!: derives_EolE)
  have caps: "c' G_credits = Some cr \<and> c' G_code = c G_code \<and> c' G_title = c G_title"
    using w2' lp' c3 cr' rp' w3' tg' e' by auto
  have "v = w2 @ [0x28] @ cr @ [0x29] @ (w3 @ tg @ e)" using v lp' rp' by simp
  then show ?thesis using w2' cr' caps by blast
qed

lemma derives_header_pattern:
  assumes "derives header_pattern u c c'"
  shows "\<exists>code_text w1 title_text w2 credits_text post.
           u = code_text @ w1 @ title_text @ w2 @ [0x28] @ credits_text @ [0x29] @ post \<and>
           code_shape code_text \<and> w1 \<noteq> [] \<and> list_all is_space w1 \<and>
           title_text \<noteq> [] \<and> 0x0A \<notin> set title_text \<and>
           list_all is_space w2 \<and> 0x29 \<notin> set credits_text \<and>
           c' G_code = Some code_text \<and> c' G_title = Some title_text \<and>
           c' G_credits = Some credits_text"
proof -
  from assms obtain b cd w1 tt v c1 c2 c3 c4 where
    u: "u = b @ cd @ w1 @ tt @ v" and
    b: "derives Bol b c c1" and
    cd: "derives (Group G_code code_pattern) cd c1 c2" and
    w1: "derives (Plus (Sym Space)) w1 c2 c3" and
    tt: "derives (Group G_title (LazyPlus (Sym Dot))) tt c3 c4" and
    v: "derives tail_pattern v c4 c'"
    unfolding header_pattern_def by (auto elim!: derives_SeqE)
  from b have b': "b = []" by (auto elim!: derives_BolE)
  from cd obtain c1' where cd0: "derives code_pattern cd c1 c1'"
    and c2: "c2 = c1'(G_code \<mapsto> cd)" by (auto elim!: derives_GroupE)
  from derives_code_pattern [OF cd0] have cd': "code_shape cd" by simp
  from derives_Plus_Sym [OF w1] have w1': "c3 = c2" "w1 \<noteq> []" "list_all is_space w1"
    by (auto simp: list_all_iff)
  from tt obtain c3' where tt0: "derives (LazyPlus (Sym Dot)) tt c3 c3'"
    and c4: "c4 = c3'(G_title \<mapsto> tt)" by (auto elim!: derives_GroupE)
  from derives_LazyPlus_Sym [OF tt0] have tt': "c3' = c3" "tt \<noteq> []" "0x0A \<notin> set tt"
    by (auto simp: list_all_iff)
  from derives_tail_pattern [OF v] obtain w2 cr post where
    t: "v = w2 @ [0x28] @ cr @ [0x29] @ post" "list_all is_space w2" "0x29 \<notin> set cr"
       "c' G_credits = Some cr" "c' G_code = c4 G_code" "c' G_title = c4 G_title"
    by blast
  have caps: "c' G_code = Some cd" "c' G_title = Some tt"
    using t(5,6) c4 tt' w1' c2 by auto
  have "u = cd @ w1 @ tt @ w2 @ [0x28] @ cr @ [0x29] @ post" using u b' t(1) by simp
  then show ?thesis using cd' w1' tt' t caps by blast
qed

subsection \<open>The normalised header\<close>

declare re_sub.simps [simp del]

lemma matches_Star_Sym_Nil: "matches n (Star (Sym k)) [] c = [([], c)]"
  by (simp add: matches.simps)

lemma matches_Star_Sym_Cons:
  "matches n (Star (Sym k)) (x # xs) c =
     (if cls_match k x then matches n (Star (Sym k)) xs c @ [(x # xs, c)] else [(x # xs, c)])"
  by (subst matches.simps) (simp add: matches.simps(1))

lemma matches_Star_Sym_first:
  "\<exists>rest. matches n (Star (Sym k)) s c = (dropWhile (cls_match k) s, c) # rest"
proof (induction s)
  case Nil
  show ?case by (simp add: matches_Star_Sym_Nil)
next
  case (Cons x xs)
  then obtain rest where "matches n (Star (Sym k)) xs c = (dropWhile (cls_match k) xs, c) # rest"
    by blast
  then show ?case by (simp add: matches_Star_Sym_Cons)
qed

lemma matches_Plus_Sym_Nil: "matches n (Plus (Sym k)) [] c = []"
  by (simp add: matches.simps)

lemma matches_Plus_Sym_Cons:
  "matches n (Plus (Sym k)) (x # xs) c =
     (if cls_match k x then matches n (Star (Sym k)) xs c else [])"
  by (subst matches.simps) (simp add: matches.simps(1))

lemma re_sub_ws_Nil: "re_sub n (Plus (Sym Space)) repl [] = []"
  by (simp add: re_sub.simps)

lemma re_sub_ws_Cons:
  "re_sub n (Plus (Sym Space)) repl (x # xs) =
     (if is_space x then repl @ re_sub n (Plus (Sym Space)) repl (dropWhile is_space xs)
      else x # re_sub n (Plus (Sym Space)) repl xs)"
proof (cases "is_space x")
  case True
  obtain rest where r: "matches n (Star (Sym Space)) xs Map.empty =
      (dropWhile (cls_match Space) xs, Map.empty) # rest"
    using matches_Star_Sym_first by blast
  have le: "length (dropWhile is_space xs) \<le> length xs" by (rule length_dropWhile_le)
  have cm: "cls_match Space = is_space" by (rule ext) simp
  show ?thesis
    using True le by (subst re_sub.simps) (simp add: matches_Plus_Sym_Cons r cm)
next
  case False
  then show ?thesis by (subst re_sub.simps) (simp add: matches_Plus_Sym_Cons)
qed


lemma is_space_32: "is_space 0x20"
  by (simp add: is_space_def)

lemma re_sub_ws_spaces:
  "list_all (\<lambda>x. is_space x = (x = 0x20)) (re_sub n (Plus (Sym Space)) [0x20] s)"
proof (induction s rule: measure_induct_rule [of length])
  case (less s)
  show ?case
  proof (cases s)
    case Nil
    then show ?thesis by (simp add: re_sub_ws_Nil)
  next
    case (Cons x xs)
    have "length (dropWhile is_space xs) < length s"
      using Cons length_dropWhile_le [of is_space xs] by simp
    then have 1: "list_all (\<lambda>x. is_space x = (x = 0x20))
        (re_sub n (Plus (Sym Space)) [0x20] (dropWhile is_space xs))"
      by (rule less.IH)
    have 2: "list_all (\<lambda>x. is_space x = (x = 0x20)) (re_sub n (Plus (Sym Space)) [0x20] xs)"
      by (rule less.IH) (simp add: Cons)
    show ?thesis
      using 1 2 by (auto simp: Cons re_sub_ws_Cons is_space_32)
  qed
qed

lemma re_sub_ws_head:
  "\<not> is_space y \<Longrightarrow> \<exists>r. re_sub n (Plus (Sym Space)) repl (y # ys) = y # r"
  by (simp add: re_sub_ws_Cons)

lemma adj_free_Cons_nonspace: "adj_free r \<Longrightarrow> (r \<noteq> [] \<Longrightarrow> \<not> is_space (hd r)) \<Longrightarrow> adj_free (x # r)"
  by (cases r) auto

lemma adj_free_Cons_nonspace2: "adj_free r \<Longrightarrow> \<not> is_space x \<Longrightarrow> adj_free (x # r)"
  by (cases r) auto

lemma re_sub_ws_adj_free: "adj_free (re_sub n (Plus (Sym Space)) [0x20] s)"
proof (induction s rule: measure_induct_rule [of length])
  case (less s)
  show ?case
  proof (cases s)
    case Nil
    then show ?thesis by (simp add: re_sub_ws_Nil)
  next
    case (Cons x xs)
    show ?thesis
    proof (cases "is_space x")
      case False
      have "adj_free (re_sub n (Plus (Sym Space)) [0x20] xs)"
        by (rule less.IH) (simp add: Cons)
      then show ?thesis using False by (simp add: Cons re_sub_ws_Cons adj_free_Cons_nonspace2)
    next
      case True
      let ?d = "dropWhile is_space xs"
      have len: "length ?d < length s"
        using Cons length_dropWhile_le [of is_space xs] by simp
      have ih: "adj_free (re_sub n (Plus (Sym Space)) [0x20] ?d)"
        using len by (rule less.IH)
      have hd: "re_sub n (Plus (Sym Space)) [0x20] ?d \<noteq> [] \<longrightarrow>
          \<not> is_space (hd (re_sub n (Plus (Sym Space)) [0x20] ?d))"
      proof (cases ?d)
        case Nil
        then have "re_sub n (Plus (Sym Space)) [0x20] ?d = []"
          by (simp only: re_sub_ws_Nil)
        then show ?thesis by (simp only: not_False_eq_True simp_thms)
      next
        case (Cons y ys)
        then have "\<not> is_space y" by (metis hd_dropWhile list.sel(1) list.distinct(1))
        then show ?thesis using Cons by (simp add: re_sub_ws_Cons)
      qed
      show ?thesis
        using True ih hd by (simp add: Cons re_sub_ws_Cons adj_free_Cons_nonspace)
    qed
  qed
qed

lemma adj_free_append: "adj_free (a @ b) \<Longrightarrow> adj_free a \<and> adj_free b"
proof (induction a rule: adj_free.induct)
  case 1
  then show ?case by simp
next
  case (2 x)
  then show ?case by (cases b) auto
next
  case (3 x y r)
  then show ?case by simp
qed

lemma adj_free_mid: "adj_free (p @ x # y # q) \<Longrightarrow> is_space x \<Longrightarrow> \<not> is_space y"
  using adj_free_append [of p "x # y # q"] by simp

lemma strip_infix: "\<exists>a b. s = a @ strip s @ b"
proof -
  let ?d = "dropWhile is_space s"
  have 1: "s = takeWhile is_space s @ ?d" by simp
  have "strip s @ rev (takeWhile is_space (rev ?d)) =
        rev (takeWhile is_space (rev ?d) @ dropWhile is_space (rev ?d))"
    by (simp only: strip_def rev_append)
  also have "\<dots> = rev (rev ?d)" by (simp only: takeWhile_dropWhile_id)
  finally have 2: "?d = strip s @ rev (takeWhile is_space (rev ?d))" by simp
  from 1 2 have "s = takeWhile is_space s @ strip s @ rev (takeWhile is_space (rev ?d))"
    by simp
  then show ?thesis by blast
qed

lemma spaced_infix: "spaced (a @ m @ b) \<Longrightarrow> spaced m"
  using adj_free_append [of a "m @ b"] adj_free_append [of m b]
  by (simp add: spaced_def)

lemma header_norm_spaced: "spaced (header_norm nfkc header)"
proof -
  let ?h1 = "replace1 0xA0 [0x20] (nfkc header)"
  let ?h2 = "re_sub (length ?h1) (Plus (Sym Space)) [0x20] ?h1"
  have "spaced ?h2" by (simp add: spaced_def re_sub_ws_spaces re_sub_ws_adj_free)
  moreover obtain a b where "?h2 = a @ strip ?h2 @ b" using strip_infix by blast
  ultimately have "spaced (strip ?h2)" using spaced_infix by metis
  then show ?thesis by (simp add: header_norm_def Let_def)
qed

lemma spaced_run:
  assumes "spaced (p @ w @ q)" "w \<noteq> []" "list_all is_space w"
  shows "w = [0x20]"
proof -
  from assms(1) have sw: "spaced w" by (rule spaced_infix)
  obtain x r where w: "w = x # r" using assms(2) by (cases w) auto
  have x: "x = 0x20" using sw assms(3) by (simp add: w spaced_def)
  have "r = []"
  proof (cases r)
    case (Cons y r')
    then have "\<not> (is_space x \<and> is_space y)" using sw by (auto simp: w spaced_def)
    then show ?thesis using assms(3) by (simp add: w Cons)
  qed simp
  then show ?thesis using w x by simp
qed

subsection \<open>From a match to the record\<close>

lemma digit_not_space: "is_digit x \<Longrightarrow> \<not> is_space x"
  by (auto simp: is_digit_def nd_zeros_def is_space_def)

lemma upper_not_digit: "is_upper x \<Longrightarrow> \<not> is_digit x"
  by (auto simp: is_upper_def is_digit_def nd_zeros_def)

lemma upper_not_space: "is_upper x \<Longrightarrow> \<not> is_space x"
  by (auto simp: is_upper_def is_space_def)

lemma replace1_remove: "replace1 a [] s = filter (\<lambda>x. x \<noteq> a) s"
  by (induction s) (auto simp: replace1_def)

lemma re_match_SomeD:
  "re_match r s = Some m \<Longrightarrow> \<exists>s' rest. matches (length s) r s Map.empty = (s', m) # rest"
  by (auto simp: re_match_def split: list.splits)

lemma header_match_shape:
  assumes "re_match header_pattern s = Some m"
  shows "\<exists>code_text w1 title_text w2 credits_text post.
           s = code_text @ w1 @ title_text @ w2 @ [0x28] @ credits_text @ [0x29] @ post \<and>
           code_shape code_text \<and> w1 \<noteq> [] \<and> list_all is_space w1 \<and>
           title_text \<noteq> [] \<and> 0x0A \<notin> set title_text \<and>
           list_all is_space w2 \<and> 0x29 \<notin> set credits_text \<and>
           m G_code = Some code_text \<and> m G_title = Some title_text \<and>
           m G_credits = Some credits_text"
proof -
  from re_match_SomeD [OF assms] obtain s' rest where
    "matches (length s) header_pattern s Map.empty = (s', m) # rest" by blast
  then have "(s', m) \<in> set (matches (length s) header_pattern s Map.empty)" by simp
  from matches_sound [OF this] obtain u where
    u: "s = u @ s'" "derives header_pattern u Map.empty m" by blast
  from derives_header_pattern [OF u(2)] obtain cd w1 tt w2 cr post where
    d: "u = cd @ w1 @ tt @ w2 @ [0x28] @ cr @ [0x29] @ post"
       "code_shape cd" "w1 \<noteq> []" "list_all is_space w1" "tt \<noteq> []" "0x0A \<notin> set tt"
       "list_all is_space w2" "0x29 \<notin> set cr"
       "m G_code = Some cd" "m G_title = Some tt" "m G_credits = Some cr"
    by blast
  have "s = cd @ w1 @ tt @ w2 @ [0x28] @ cr @ [0x29] @ (post @ s')" using u(1) d(1) by simp
  then show ?thesis using d by blast
qed

lemma parse_header_match:
  assumes "re_match header_pattern (header_norm nfkc header) = Some m"
  shows "\<exists>code_text. m G_code = Some code_text \<and>
           parse_header nfkc header =
             Inr (Some \<lparr>code = filter (\<lambda>x. x \<noteq> 0x20) code_text,
                        title = m G_title, credits = m G_credits\<rparr>)"
proof -
  from header_match_shape [OF assms] obtain code_text where "m G_code = Some code_text"
    by blast
  then show ?thesis using assms by (simp add: parse_header_def replace1_remove)
qed

lemma parse_header_emitsD:
  assumes "parse_header nfkc header = Inr (Some r)"
  shows "\<exists>m code_text. re_match header_pattern (header_norm nfkc header) = Some m \<and>
           m G_code = Some code_text \<and> code r = filter (\<lambda>x. x \<noteq> 0x20) code_text \<and>
           title r = m G_title \<and> credits r = m G_credits"
proof (cases "re_match header_pattern (header_norm nfkc header)")
  case None
  then show ?thesis using assms by (simp add: parse_header_def)
next
  case (Some m)
  from parse_header_match [OF Some] assms show ?thesis using Some by auto
qed

lemma parse_header_no_error: "parse_header nfkc header \<noteq> Inl e"
proof (cases "re_match header_pattern (header_norm nfkc header)")
  case None
  then show ?thesis by (simp add: parse_header_def)
next
  case (Some m)
  from parse_header_match [OF Some] show ?thesis by auto
qed

lemma blocks_single_spaces:
  "spaced (p @ concat (map (\<lambda>(w, a). w @ a) bs) @ q) \<Longrightarrow> word_blocks bs \<Longrightarrow>
     list_all (\<lambda>(w, a). w = [0x20]) bs"
proof (induction bs arbitrary: p)
  case Nil
  show ?case by simp
next
  case (Cons b bs)
  obtain w a where b: "b = (w, a)" by (cases b)
  from Cons.prems(2) have wb: "w \<noteq> []" "list_all is_space w" "word_blocks bs"
    by (auto simp: word_blocks_def b)
  have "spaced (p @ w @ (a @ concat (map (\<lambda>(w, a). w @ a) bs) @ q))"
    using Cons.prems(1) by (simp add: b)
  then have w: "w = [0x20]" using wb(1,2) by (rule spaced_run)
  have "spaced ((p @ w @ a) @ concat (map (\<lambda>(w, a). w @ a) bs) @ q)"
    using Cons.prems(1) by (simp add: b)
  from Cons.IH [OF this wb(3)] w show ?case by (simp add: b)
qed

lemma join_sp_blocks:
  "list_all (\<lambda>(w, a). w = [0x20]) bs \<Longrightarrow>
     a @ concat (map (\<lambda>(w, a). w @ a) bs) = join_sp (a # map snd bs)"
proof (induction bs arbitrary: a)
  case Nil
  show ?case by simp
next
  case (Cons b bs)
  obtain w a' where b: "b = (w, a')" by (cases b)
  from Cons.prems have w: "w = [0x20]" and rest: "list_all (\<lambda>(w, a). w = [0x20]) bs"
    by (auto simp: b)
  from Cons.IH [OF rest, of a'] show ?case by (simp add: b w)
qed

lemma filter_join_sp:
  "list_all (\<lambda>w. list_all is_upper w) ws \<Longrightarrow>
     filter (\<lambda>x. x \<noteq> 0x20) (join_sp ws) = concat ws"
proof (induction ws rule: join_sp.induct)
  case 1
  show ?case by simp
next
  case (2 w)
  then have "\<forall>x \<in> set w. x \<noteq> 0x20" by (auto simp: list_all_iff is_upper_def)
  then show ?case by (simp add: filter_id_conv)
next
  case (3 w v ws)
  then have "\<forall>x \<in> set w. x \<noteq> 0x20" by (auto simp: list_all_iff is_upper_def)
  then have "filter (\<lambda>x. x \<noteq> 0x20) w = w" by (simp add: filter_id_conv)
  then show ?case using 3 by simp
qed

lemma code_shape_spaced:
  assumes sp: "spaced (code_text @ rest)" and sh: "code_shape code_text"
  shows "\<exists>ws ds l. code_text = join_sp ws @ 0x20 # ds @ l \<and> code_parts ws ds l"
proof -
  from sh obtain a bs w d l where
    c: "code_text = a @ concat (map (\<lambda>(w, a). w @ a) bs) @ w @ d @ l"
       "a \<noteq> []" "list_all is_upper a" "word_blocks bs" "w \<noteq> []" "list_all is_space w"
       "d \<noteq> []" "list_all is_digit d" "l = [] \<or> (\<exists>x. l = [x] \<and> is_upper x)"
    unfolding code_shape_def by blast
  have "spaced (a @ concat (map (\<lambda>(w, a). w @ a) bs) @ (w @ d @ l @ rest))"
    using sp c(1) by simp
  from blocks_single_spaces [OF this c(4)]
  have bs1: "list_all (\<lambda>(w, a). w = [0x20]) bs" .
  have "spaced ((a @ concat (map (\<lambda>(w, a). w @ a) bs)) @ w @ (d @ l @ rest))"
    using sp c(1) by simp
  then have w: "w = [0x20]" using c(5,6) by (rule spaced_run)
  let ?ws = "a # map snd bs"
  have 1: "code_text = join_sp ?ws @ 0x20 # d @ l"
    using c(1) join_sp_blocks [OF bs1, of a] w by simp
  have "list_all (\<lambda>w. w \<noteq> [] \<and> list_all is_upper w) (map snd bs)"
    using c(4) by (auto simp: word_blocks_def list_all_iff)
  then have 2: "code_parts ?ws d l"
    using c(2,3,7,8,9) by (auto simp: code_parts_def)
  from 1 2 show ?thesis by blast
qed

lemma filter_code_parts:
  assumes "code_parts ws ds l"
  shows "filter (\<lambda>x. x \<noteq> 0x20) (join_sp ws @ 0x20 # ds @ l) = concat ws @ ds @ l"
proof -
  have ws: "list_all (\<lambda>w. list_all is_upper w) ws"
    using assms by (auto simp: code_parts_def list_all_iff)
  have "\<forall>x \<in> set ds. x \<noteq> 0x20"
    using assms digit_not_space is_space_32 by (auto simp: code_parts_def list_all_iff)
  then have d: "filter (\<lambda>x. x \<noteq> 0x20) ds = ds" by (simp add: filter_id_conv)
  have "\<forall>x \<in> set l. x \<noteq> 0x20"
    using assms by (auto simp: code_parts_def list_all_iff is_upper_def)
  then have l: "filter (\<lambda>x. x \<noteq> 0x20) l = l" by (simp add: filter_id_conv)
  show ?thesis by (simp add: filter_join_sp [OF ws] d l)
qed

subsection \<open>The record of a header that matches\<close>

lemma match_code_parts:
  assumes "re_match header_pattern (header_norm nfkc header) = Some m"
  shows "\<exists>code_text rest ws ds l r.
           header_norm nfkc header = code_text @ 0x20 # rest \<and>
           m G_code = Some code_text \<and>
           code_text = join_sp ws @ 0x20 # ds @ l \<and> code_parts ws ds l \<and>
           parse_header nfkc header = Inr (Some r) \<and>
           code r = filter (\<lambda>x. x \<noteq> 0x20) code_text \<and>
           code r = concat ws @ ds @ l"
proof -
  from header_match_shape [OF assms] obtain cd w1 tt w2 cr post where
    d: "header_norm nfkc header = cd @ w1 @ tt @ w2 @ [0x28] @ cr @ [0x29] @ post"
       "code_shape cd" "w1 \<noteq> []" "list_all is_space w1" "m G_code = Some cd"
    by blast
  have sp: "spaced (header_norm nfkc header)" by (rule header_norm_spaced)
  have "spaced ([] @ cd @ (w1 @ tt @ w2 @ [0x28] @ cr @ [0x29] @ post))"
    using sp d(1) by simp
  then have "spaced (cd @ (w1 @ tt @ w2 @ [0x28] @ cr @ [0x29] @ post))" by simp
  from code_shape_spaced [OF this d(2)] obtain ws ds l where
    parts: "cd = join_sp ws @ 0x20 # ds @ l" "code_parts ws ds l" by blast
  have "spaced (cd @ w1 @ (tt @ w2 @ [0x28] @ cr @ [0x29] @ post))"
    using sp d(1) by simp
  then have w1: "w1 = [0x20]" using d(3,4) by (rule spaced_run)
  from parse_header_match [OF assms] d(5)
  have p: "parse_header nfkc header =
      Inr (Some \<lparr>code = filter (\<lambda>x. x \<noteq> 0x20) cd, title = m G_title, credits = m G_credits\<rparr>)"
    by simp
  let ?r = "\<lparr>code = filter (\<lambda>x. x \<noteq> 0x20) cd, title = m G_title, credits = m G_credits\<rparr>"
  have c2: "code ?r = concat ws @ ds @ l"
    using filter_code_parts [OF parts(2)] parts(1) by simp
  have "header_norm nfkc header = cd @ 0x20 # (tt @ w2 @ [0x28] @ cr @ [0x29] @ post)"
    using d(1) w1 by simp
  with d(5) parts p c2 show ?thesis by fastforce
qed

text \<open>
  C1. When the normalised header matches the pattern, a record is emitted whose code is
  the text of the code group with its spaces removed. That text is the subject words
  joined by single spaces, a space, the digits and the optional letter, so that the
  code is the words, the digits and the letter run together, whatever the number of
  words of the subject.
\<close>

theorem code_is_code_text_without_spaces:
  assumes "re_match header_pattern (header_norm nfkc header) = Some m"
  shows "\<exists>code_text rest ws ds l r.
           header_norm nfkc header = code_text @ 0x20 # rest \<and>
           m G_code = Some code_text \<and>
           code_text = join_sp ws @ 0x20 # ds @ l \<and> code_parts ws ds l \<and>
           parse_header nfkc header = Inr (Some r) \<and>
           code r = filter (\<lambda>x. x \<noteq> 0x20) code_text \<and>
           code r = concat ws @ ds @ l"
  using assms by (rule match_code_parts)

theorem code_is_code_text_without_spaces_witness:
  "\<exists>code_text rest ws ds l r.
     header_norm nfkc_sample (of_ascii ''L ARCH 300 Advanced Landscape Topics (5) I&S'') =
       code_text @ 0x20 # rest \<and>
     code_text = join_sp ws @ 0x20 # ds @ l \<and> code_parts ws ds l \<and>
     parse_header nfkc_sample (of_ascii ''L ARCH 300 Advanced Landscape Topics (5) I&S'') =
       Inr (Some r) \<and>
     code r = filter (\<lambda>x. x \<noteq> 0x20) code_text \<and> code r = concat ws @ ds @ l"
proof -
  have "\<exists>m. re_match header_pattern
      (header_norm nfkc_sample (of_ascii ''L ARCH 300 Advanced Landscape Topics (5) I&S'')) = Some m"
    by (simp add: header_eval header_norm_def nfkc_sample_def)
  then obtain m where "re_match header_pattern
      (header_norm nfkc_sample (of_ascii ''L ARCH 300 Advanced Landscape Topics (5) I&S'')) = Some m"
    by blast
  from code_is_code_text_without_spaces [OF this] show ?thesis by blast
qed

lemma has_paren_group_append: "0x29 \<in> set b \<Longrightarrow> has_paren_group (a @ 0x28 # b)"
  by (induction a) (auto simp: has_paren_group_def)

text \<open>
  C4, as the code has it. A header whose normalised form has no parenthesis group is
  skipped: nothing is raised, no record is emitted, and the list of courses stays as
  it was. (The condition is on the normalised header and not on the line as it comes:
  compatibility normalisation turns characters such as the parenthesized digit one
  into text with parentheses, and such a line yields a record.)
\<close>

theorem no_paren_group_no_record:
  assumes "\<not> has_paren_group (header_norm nfkc header)"
  shows "parse_header nfkc header = Inr None \<and>
         process_header nfkc courses header = Inr courses"
proof -
  have "re_match header_pattern (header_norm nfkc header) = None"
  proof (rule ccontr)
    assume "re_match header_pattern (header_norm nfkc header) \<noteq> None"
    then obtain m where "re_match header_pattern (header_norm nfkc header) = Some m" by blast
    from header_match_shape [OF this] obtain cd w1 tt w2 cr post where
      "header_norm nfkc header = cd @ w1 @ tt @ w2 @ [0x28] @ cr @ [0x29] @ post" by blast
    then have "header_norm nfkc header = (cd @ w1 @ tt @ w2) @ 0x28 # (cr @ [0x29] @ post)"
      by simp
    moreover have "0x29 \<in> set (cr @ [0x29] @ post)" by simp
    ultimately have "has_paren_group (header_norm nfkc header)"
      using has_paren_group_append by metis
    with assms show False by simp
  qed
  then show ?thesis by (simp add: parse_header_def process_header_def)
qed

theorem no_paren_group_no_record_witness:
  "parse_header nfkc_sample (of_ascii ''Prerequisite: ANTH 100.'') = Inr None \<and>
   process_header nfkc_sample [] (of_ascii ''Prerequisite: ANTH 100.'') = Inr []"
proof -
  have "\<not> has_paren_group (header_norm nfkc_sample (of_ascii ''Prerequisite: ANTH 100.''))"
    by (simp add: header_eval header_norm_def nfkc_sample_def has_paren_group_def)
  from no_paren_group_no_record [OF this] show ?thesis by simp
qed

theorem no_paren_group_raw_counterexample:
  "\<not> has_paren_group (of_ascii ''ANTH 100 Title '' @ [0x2474]) \<and>
   parse_header nfkc_sample (of_ascii ''ANTH 100 Title '' @ [0x2474]) =
     Inr (Some \<lparr>code = of_ascii ''ANTH100'', title = Some (of_ascii ''Title''),
                credits = Some (of_ascii ''1'')\<rparr>)"
  by (simp add: header_eval header_norm_def nfkc_sample_def has_paren_group_def)

lemma code_form_parts:
  assumes "code_parts ws ds l"
  shows "code_form (concat ws @ ds @ l)"
proof -
  let ?a = "concat ws"
  have a: "list_all is_upper ?a" "?a \<noteq> []"
    using assms by (cases ws; auto simp: code_parts_def list_all_iff)+
  have d: "ds \<noteq> []" "list_all is_digit ds" using assms by (auto simp: code_parts_def)
  have l: "length l \<le> 1" "list_all is_upper l" using assms by (auto simp: code_parts_def)
  obtain x ds' where ds: "ds = x # ds'" using d(1) by (cases ds) auto
  have nx: "\<not> is_upper x" using d(2) upper_not_digit by (auto simp: ds)
  have au: "\<And>y. y \<in> set ?a \<Longrightarrow> is_upper y" using a(1) by (simp only: list_all_iff)
  have "takeWhile is_upper (?a @ ds @ l) = ?a @ takeWhile is_upper (ds @ l)"
    by (rule takeWhile_append2) (rule au)
  moreover have "takeWhile is_upper (ds @ l) = []" using nx by (simp add: ds)
  ultimately have tw: "takeWhile is_upper (?a @ ds @ l) = ?a" by simp
  have "dropWhile is_upper (?a @ ds @ l) = dropWhile is_upper (ds @ l)"
    by (rule dropWhile_append2) (rule au)
  then have dw: "dropWhile is_upper (?a @ ds @ l) = ds @ l" using nx by (simp add: ds)
  have nl: "\<forall>y \<in> set l. \<not> is_digit y" using l(2) upper_not_digit by (auto simp: list_all_iff)
  have tw2: "takeWhile is_digit (ds @ l) = ds"
  proof (cases l)
    case Nil
    then show ?thesis using d(2) by (simp add: list_all_iff)
  next
    case (Cons y l')
    then show ?thesis using d(2) nl by (simp add: takeWhile_append2 list_all_iff)
  qed
  have dw2: "dropWhile is_digit (ds @ l) = l"
  proof (cases l)
    case Nil
    then show ?thesis using d(2) by (simp add: list_all_iff)
  next
    case (Cons y l')
    then show ?thesis using d(2) nl by (simp add: dropWhile_append2 list_all_iff)
  qed
  show ?thesis
    unfolding code_form_def Let_def tw dw tw2 dw2 using a(2) d(1) l by simp
qed

text \<open>
  C9. The code of every emitted record is one or more ASCII capitals, then one or more
  digits (what \<open>\d\<close> matches), then at most one capital, and has no whitespace in it.
\<close>

theorem code_has_code_form:
  assumes "parse_header nfkc header = Inr (Some r)"
  shows "code_form (code r) \<and> \<not> list_ex is_space (code r)"
proof -
  from parse_header_emitsD [OF assms] obtain m where
    m: "re_match header_pattern (header_norm nfkc header) = Some m" by blast
  from match_code_parts [OF m] assms obtain ws ds l where
    parts: "code_parts ws ds l" "code r = concat ws @ ds @ l" by auto
  have 1: "code_form (code r)" using code_form_parts [OF parts(1)] parts(2) by simp
  have "\<forall>x \<in> set (concat ws @ ds @ l). \<not> is_space x"
    using parts(1) upper_not_space digit_not_space
    by (auto simp: code_parts_def list_all_iff)
  then have 2: "\<not> list_ex is_space (code r)" by (simp add: parts(2) list_ex_iff)
  from 1 2 show ?thesis by simp
qed

theorem code_has_code_form_witness:
  "code_form (of_ascii ''BE200'') \<and> \<not> list_ex is_space (of_ascii ''BE200'')"
proof -
  have p: "parse_header nfkc_sample (of_ascii ''B E 200 Built Environment Foundations (5)'') =
           Inr (Some \<lparr>code = of_ascii ''BE200'',
                      title = Some (of_ascii ''Built Environment Foundations''),
                      credits = Some (of_ascii ''5'')\<rparr>)"
    by (simp add: header_eval header_norm_def nfkc_sample_def)
  from code_has_code_form [OF p] show ?thesis by simp
qed

subsection \<open>The department loop\<close>

declare str_nat.simps [simp del]

lemma process_header_no_error: "\<exists>courses'. process_header nfkc courses header = Inr courses'"
proof (cases "parse_header nfkc header")
  case (Inl e)
  then show ?thesis using parse_header_no_error by blast
next
  case (Inr x)
  then show ?thesis by (cases x) (simp_all add: process_header_def)
qed

lemma collect_no_error: "\<exists>courses'. collect nfkc courses headers = Inr courses'"
proof (induction headers arbitrary: courses)
  case Nil
  show ?case by simp
next
  case (Cons h hs)
  obtain c1 where "process_header nfkc courses h = Inr c1"
    using process_header_no_error by blast
  then show ?case using Cons.IH [of c1] by simp
qed

lemma scrape_department_no_error:
  "\<exists>w'. scrape_department nfkc get_headers execute w dep = Inr w'"
proof -
  obtain a n u where dep: "dep = (a, n, u)" by (cases dep)
  obtain cs where "collect nfkc [] (get_headers u) = Inr cs"
    using collect_no_error by blast
  then show ?thesis by (simp add: scrape_department_def dep Let_def)
qed

lemma scrape_all_no_error: "\<exists>w'. scrape_all nfkc get_headers execute w deps = Inr w'"
proof (induction deps arbitrary: w)
  case Nil
  show ?case by simp
next
  case (Cons d ds)
  obtain w1 where "scrape_department nfkc get_headers execute w d = Inr w1"
    using scrape_department_no_error by blast
  then show ?case using Cons.IH [of w1] by simp
qed

lemma scrape_department_error_step:
  assumes "collect nfkc [] (get_headers dep_url) = Inr courses" "courses \<noteq> []"
    and "error (execute (length (inserts w)) courses) = Some e" "truthy e"
  shows "scrape_department nfkc get_headers execute w (dep_abbrev, dep_name, dep_url) =
     Inr (w\<lparr>stdout := stdout w @
                [of_ascii ''Scraping '' @ dep_name @ of_ascii ''...'',
                 of_ascii ''Error inserting courses for '' @ dep_name @ of_ascii '': '' @ py_str e],
             inserts := inserts w @ [courses],
             sleeps := Suc (sleeps w)\<rparr>)"
  using assms
  by (simp add: scrape_department_def Let_def print_def has_error_def error_text_def)

text \<open>
  C8. When the response to the insert of a department carries a true \<open>error\<close>, the run
  prints the line with that error after the line that announces the department, has
  sent the batch exactly once, raises nothing, and goes on with the departments that
  remain; and the whole run ends without an error whatever the responses are.
\<close>

theorem insert_error_printed_not_raised:
  assumes "collect nfkc [] (get_headers dep_url) = Inr courses" "courses \<noteq> []"
    and "error (execute (length (inserts w)) courses) = Some e" "truthy e"
  shows "scrape_all nfkc get_headers execute w ((dep_abbrev, dep_name, dep_url) # deps) =
           scrape_all nfkc get_headers execute
             (w\<lparr>stdout := stdout w @
                  [of_ascii ''Scraping '' @ dep_name @ of_ascii ''...'',
                   of_ascii ''Error inserting courses for '' @ dep_name @ of_ascii '': '' @
                     py_str e],
                inserts := inserts w @ [courses],
                sleeps := Suc (sleeps w)\<rparr>) deps \<and>
         (\<exists>w'. scrape_all nfkc get_headers execute w ((dep_abbrev, dep_name, dep_url) # deps) =
                Inr w')"
proof -
  have step: "scrape_department nfkc get_headers execute w (dep_abbrev, dep_name, dep_url) =
     Inr (w\<lparr>stdout := stdout w @
                [of_ascii ''Scraping '' @ dep_name @ of_ascii ''...'',
                 of_ascii ''Error inserting courses for '' @ dep_name @ of_ascii '': '' @ py_str e],
             inserts := inserts w @ [courses],
             sleeps := Suc (sleeps w)\<rparr>)"
    using assms by (rule scrape_department_error_step)
  show ?thesis using step scrape_all_no_error by simp
qed

theorem insert_error_printed_not_raised_witness:
  "scrape_all nfkc_sample headers_sample execute_failing world0
     [(of_ascii ''be'', of_ascii ''BE'', of_ascii ''u1''),
      (of_ascii ''anth'', of_ascii ''ANTH'', of_ascii ''u2'')] =
   Inr \<lparr>stdout = [of_ascii ''Scraping BE...'',
                   of_ascii ''Error inserting courses for BE: timeout'',
                   of_ascii ''Scraping ANTH...'',
                   of_ascii ''Error inserting courses for ANTH: timeout''],
        inserts = [[course_sample], [course_sample]],
        sleeps = 2\<rparr>"
proof -
  have p: "parse_header nfkc_sample (of_ascii ''B E 2 X (5)'') = Inr (Some course_sample)"
    by (simp add: header_eval header_norm_def nfkc_sample_def course_sample_def)
  have c: "collect nfkc_sample [] (headers_sample u) = Inr [course_sample]"
    for u
    by (simp add: process_header_def p headers_sample_def)
  have ne: "[course_sample] \<noteq> []" by simp
  have e: "error (execute_failing k [course_sample]) = Some (PyStr (of_ascii ''timeout''))"
    for k
    by (simp add: execute_failing_def)
  have t: "truthy (PyStr (of_ascii ''timeout''))" by (simp add: of_ascii_def)
  note 1 = insert_error_printed_not_raised
    [where nfkc = nfkc_sample and get_headers = headers_sample and execute = execute_failing
       and courses = "[course_sample]" and e = "PyStr (of_ascii ''timeout'')",
     OF c ne e t, THEN conjunct1]
  show ?thesis
    unfolding 1 by (simp add: world0_def of_ascii_def)
qed

subsection \<open>The first way to match\<close>

text \<open>
  What the order of the matcher adds to its soundness: the title, matched lazily, is
  the shortest that lets the rest of the pattern match.
\<close>

lemma concat_map_first:
  "concat (map f xs) = y # ys \<Longrightarrow> \<exists>x \<in> set xs. \<exists>ys'. f x = y # ys'"
proof (induction xs)
  case Nil
  then show ?case by simp
next
  case (Cons x xs)
  show ?case
  proof (cases "f x")
    case Nil
    then show ?thesis using Cons by auto
  next
    case (Cons z zs)
    then show ?thesis using Cons.prems by auto
  qed
qed

lemma concat_upt_first:
  "concat (map f [a..<b]) = y # ys \<Longrightarrow>
     \<exists>j ys'. a \<le> j \<and> j < b \<and> f j = y # ys' \<and> (\<forall>i. a \<le> i \<and> i < j \<longrightarrow> f i = [])"
proof (induction "b - a" arbitrary: a)
  case 0
  then show ?case by simp
next
  case (Suc d)
  then have ab: "a < b" by simp
  then have upt: "[a..<b] = a # [Suc a..<b]" by (rule upt_conv_Cons)
  show ?case
  proof (cases "f a")
    case Nil
    then have "concat (map f [Suc a..<b]) = y # ys" using Suc.prems upt by simp
    moreover have "d = b - Suc a" using Suc.hyps(2) by simp
    ultimately obtain j ys' where j: "Suc a \<le> j" "j < b" "f j = y # ys'"
        "\<forall>i. Suc a \<le> i \<and> i < j \<longrightarrow> f i = []"
      using Suc.hyps(1) by blast
    have "\<forall>i. a \<le> i \<and> i < j \<longrightarrow> f i = []"
    proof (intro allI impI)
      fix i assume "a \<le> i \<and> i < j"
      then show "f i = []" using j(4) Nil by (cases "i = a") auto
    qed
    then show ?thesis using j by (metis Suc_leD)
  next
    case (Cons z zs)
    then have "f a = y # zs" using Suc.prems upt by simp
    then show ?thesis using ab by auto
  qed
qed

lemma seq_first:
  assumes "matches n (Seq r1 r2) s c = y # ys"
  shows "\<exists>s1 c1 ys'. (s1, c1) \<in> set (matches n r1 s c) \<and> matches n r2 s1 c1 = y # ys'"
proof -
  from assms have "concat (map (\<lambda>(s', c'). matches n r2 s' c') (matches n r1 s c)) = y # ys"
    by (simp only: matches.simps(4))
  from concat_map_first [OF this] show ?thesis by auto
qed

lemma matches_LazyStar_Sym:
  "matches n (LazyStar (Sym k)) s c =
     map (\<lambda>j. (drop j s, c)) [0..<Suc (length (takeWhile (cls_match k) s))]"
proof (induction s)
  case Nil
  have "matches n (LazyStar (Sym k)) [] c = [([], c)]"
    by (subst matches.simps) (simp add: matches.simps(1))
  then show ?case by simp
next
  case (Cons x xs)
  show ?case
  proof (cases "cls_match k x")
    case False
    have "matches n (LazyStar (Sym k)) (x # xs) c = [(x # xs, c)]"
      using False by (subst matches.simps) (simp add: matches.simps(1))
    then show ?thesis using False by simp
  next
    case True
    let ?m = "length (takeWhile (cls_match k) xs)"
    have "matches n (LazyStar (Sym k)) (x # xs) c =
            (x # xs, c) # matches n (LazyStar (Sym k)) xs c"
      using True by (subst matches.simps) (simp add: matches.simps(1))
    also have "\<dots> = (x # xs, c) # map (\<lambda>j. (drop j xs, c)) [0..<Suc ?m]"
      by (simp only: Cons.IH)
    also have "map (\<lambda>j. (drop j xs, c)) [0..<Suc ?m] =
               map (\<lambda>j. (drop j (x # xs), c)) (map Suc [0..<Suc ?m])"
      by (simp add: o_def)
    also have "map Suc [0..<Suc ?m] = [Suc 0..<Suc (Suc ?m)]" by (rule map_Suc_upt)
    finally have "matches n (LazyStar (Sym k)) (x # xs) c =
        map (\<lambda>j. (drop j (x # xs), c)) (0 # [Suc 0..<Suc (Suc ?m)])" by simp
    moreover have "[0..<Suc (Suc ?m)] = 0 # [Suc 0..<Suc (Suc ?m)]"
      by (rule upt_conv_Cons) simp
    ultimately have "matches n (LazyStar (Sym k)) (x # xs) c =
        map (\<lambda>j. (drop j (x # xs), c)) [0..<Suc (Suc ?m)]" by (simp only:)
    then show ?thesis using True by simp
  qed
qed

lemma matches_LazyPlus_Sym:
  "matches n (LazyPlus (Sym k)) s c =
     map (\<lambda>j. (drop j s, c)) [1..<Suc (length (takeWhile (cls_match k) s))]"
proof (cases s)
  case Nil
  then show ?thesis by (simp add: matches.simps(10) matches.simps(1))
next
  case (Cons x xs)
  show ?thesis
  proof (cases "cls_match k x")
    case False
    then show ?thesis by (simp add: Cons matches.simps(10) matches.simps(1))
  next
    case True
    let ?m = "length (takeWhile (cls_match k) xs)"
    have "matches n (LazyPlus (Sym k)) (x # xs) c = matches n (LazyStar (Sym k)) xs c"
      using True by (simp add: matches.simps(10) matches.simps(1))
    also have "\<dots> = map (\<lambda>j. (drop j (x # xs), c)) (map Suc [0..<Suc ?m])"
      by (simp add: matches_LazyStar_Sym o_def)
    also have "map Suc [0..<Suc ?m] = [Suc 0..<Suc (Suc ?m)]" by (rule map_Suc_upt)
    finally show ?thesis using True by (simp add: Cons)
  qed
qed

lemma matches_Group_LazyPlus_Sym:
  "matches n (Group g (LazyPlus (Sym k))) s c =
     map (\<lambda>j. (drop j s, c(g \<mapsto> take j s))) [1..<Suc (length (takeWhile (cls_match k) s))]"
proof -
  let ?m = "length (takeWhile (cls_match k) s)"
  have le: "?m \<le> length s" by (rule length_takeWhile_le)
  have "matches n (Group g (LazyPlus (Sym k))) s c =
        map (\<lambda>j. (drop j s, c(g \<mapsto> take (length s - length (drop j s)) s))) [1..<Suc ?m]"
    by (simp add: matches.simps(5) matches_LazyPlus_Sym o_def)
  also have "\<dots> = map (\<lambda>j. (drop j s, c(g \<mapsto> take j s))) [1..<Suc ?m]"
  proof (rule map_cong [OF refl])
    fix j assume "j \<in> set [1..<Suc ?m]"
    then have "j \<le> ?m" by auto
    then have "j \<le> length s" using le by linarith
    then have "length s - length (drop j s) = j" by simp
    then show "(drop j s, c(g \<mapsto> take (length s - length (drop j s)) s)) =
               (drop j s, c(g \<mapsto> take j s))" by simp
  qed
  finally show ?thesis .
qed

lemma lazy_group_first:
  assumes "matches n (Seq (Group g (LazyPlus (Sym k))) r2) s c = y # ys"
  shows "\<exists>j ys'. 1 \<le> j \<and> j \<le> length (takeWhile (cls_match k) s) \<and>
           matches n r2 (drop j s) (c(g \<mapsto> take j s)) = y # ys' \<and>
           (\<forall>i. 1 \<le> i \<and> i < j \<longrightarrow> matches n r2 (drop i s) (c(g \<mapsto> take i s)) = [])"
proof -
  let ?m = "length (takeWhile (cls_match k) s)"
  let ?f = "\<lambda>j. matches n r2 (drop j s) (c(g \<mapsto> take j s))"
  from assms have "concat (map ?f [1..<Suc ?m]) = y # ys"
    by (simp add: matches.simps(4) matches_Group_LazyPlus_Sym o_def)
  from concat_upt_first [OF this] obtain j ys' where
    "1 \<le> j" "j < Suc ?m" "?f j = y # ys'" "\<forall>i. 1 \<le> i \<and> i < j \<longrightarrow> ?f i = []" by blast
  then show ?thesis by (metis less_Suc_eq_le)
qed

lemma star_sym_takes_all:
  "(dropWhile (cls_match k) s, c) \<in> set (matches n (Star (Sym k)) s c)"
  using matches_Star_Sym_first [of n k s c] by auto

lemma star_stops: "(s, c) \<in> set (matches n (Star r) s c)"
  by (subst in_matches_Star) simp

lemma tail_complete:
  assumes w: "list_all is_space w" and rp: "0x29 \<in> set rest" and nl: "0x0A \<notin> set rest"
  shows "matches n tail_pattern (w @ 0x28 # rest) c \<noteq> []"
proof -
  from split_list_first [OF rp] obtain a b where
    ab: "rest = a @ 0x29 # b" "0x29 \<notin> set a" by blast
  have nsp: "\<not> is_space 0x28" by (simp add: is_space_def)
  have "dropWhile (cls_match Space) (w @ 0x28 # rest) = 0x28 # rest"
    using w nsp by (simp add: dropWhile_append2 list_all_iff)
  then have 1: "(0x28 # rest, c) \<in> set (matches n (Star (Sym Space)) (w @ 0x28 # rest) c)"
    using star_sym_takes_all [of Space "w @ 0x28 # rest" c n] by simp
  have 2: "(rest, c) \<in> set (matches n (Sym (Lit 0x28)) (0x28 # rest) c)"
    by (simp add: in_matches_Sym)
  have "\<And>x. x \<in> set a \<Longrightarrow> cls_match (NotLit 0x29) x" using ab(2) by auto
  then have "dropWhile (cls_match (NotLit 0x29)) (a @ 0x29 # b) =
      dropWhile (cls_match (NotLit 0x29)) (0x29 # b)"
    by (rule dropWhile_append2)
  then have "dropWhile (cls_match (NotLit 0x29)) rest = 0x29 # b"
    using ab(1) by simp
  then have "(0x29 # b, c) \<in> set (matches n (Star (Sym (NotLit 0x29))) rest c)"
    using star_sym_takes_all [of "NotLit 0x29" rest c n] by simp
  then have 3: "(0x29 # b, c(G_credits \<mapsto> take (length rest - length (0x29 # b)) rest))
      \<in> set (matches n (Group G_credits (Star (Sym (NotLit 0x29)))) rest c)"
    by (subst in_matches_Group) blast
  let ?c3 = "c(G_credits \<mapsto> take (length rest - length (0x29 # b)) rest)"
  have 4: "(b, ?c3) \<in> set (matches n (Sym (Lit 0x29)) (0x29 # b) ?c3)"
    by (simp add: in_matches_Sym)
  have 5: "(b, ?c3) \<in> set (matches n (Star (Sym Space)) b ?c3)" by (rule star_stops)
  have "0x0A \<notin> set b" using nl ab by simp
  then have "\<And>x. x \<in> set b \<Longrightarrow> cls_match Dot x" by auto
  then have dw: "dropWhile (cls_match Dot) b = []" by (simp only: dropWhile_eq_Nil_conv) blast
  have "([], ?c3) \<in> set (matches n (Star (Sym Dot)) b ?c3)"
    using star_sym_takes_all [of Dot b ?c3 n] by (simp only: dw)
  then have "([], ?c3(G_tags \<mapsto> take (length b - length ([]::ustr)) b))
      \<in> set (matches n (Group G_tags (Star (Sym Dot))) b ?c3)"
    by (subst in_matches_Group) blast
  then have 6: "([], ?c3(G_tags \<mapsto> take (length b - length ([]::ustr)) b))
      \<in> set (matches n (Opt (Group G_tags (Star (Sym Dot)))) b ?c3)"
    by (subst in_matches_Opt) blast
  let ?c6 = "?c3(G_tags \<mapsto> take (length b - length ([]::ustr)) b)"
  have 7: "([], ?c6) \<in> set (matches n Eol [] ?c6)" by (simp add: matches.simps(3))
  have "([], ?c6) \<in> set (matches n (Seq (Opt (Group G_tags (Star (Sym Dot)))) Eol) b ?c3)"
    using 6 7 by (subst in_matches_Seq) blast
  then have "([], ?c6) \<in> set (matches n
      (Seq (Star (Sym Space)) (Seq (Opt (Group G_tags (Star (Sym Dot)))) Eol)) b ?c3)"
    using 5 by (subst in_matches_Seq) blast
  then have "([], ?c6) \<in> set (matches n
      (Seq (Sym (Lit 0x29))
        (Seq (Star (Sym Space)) (Seq (Opt (Group G_tags (Star (Sym Dot)))) Eol))) (0x29 # b) ?c3)"
    using 4 by (subst in_matches_Seq) blast
  then have "([], ?c6) \<in> set (matches n
      (Seq (Group G_credits (Star (Sym (NotLit 0x29))))
        (Seq (Sym (Lit 0x29))
          (Seq (Star (Sym Space)) (Seq (Opt (Group G_tags (Star (Sym Dot)))) Eol)))) rest c)"
    using 3 by (subst in_matches_Seq) blast
  then have "([], ?c6) \<in> set (matches n
      (Seq (Sym (Lit 0x28))
        (Seq (Group G_credits (Star (Sym (NotLit 0x29))))
          (Seq (Sym (Lit 0x29))
            (Seq (Star (Sym Space)) (Seq (Opt (Group G_tags (Star (Sym Dot)))) Eol)))))
      (0x28 # rest) c)"
    using 2 by (subst in_matches_Seq) blast
  then have "([], ?c6) \<in> set (matches n tail_pattern (w @ 0x28 # rest) c)"
    unfolding tail_pattern_def using 1 by (subst in_matches_Seq) blast
  then show ?thesis by auto
qed

lemma spaced_no_newline: "spaced s \<Longrightarrow> 0x0A \<notin> set s"
proof
  assume sp: "spaced s" and "0x0A \<in> set s"
  then have "is_space 0x0A = ((0x0A::nat) = 0x20)" by (auto simp: spaced_def list_all_iff)
  then show False by (simp add: is_space_def)
qed

lemma first_match_title:
  assumes m: "re_match header_pattern s = Some m" and sp: "spaced s"
  shows "\<exists>code_text title_text w credits_text post.
           s = code_text @ [0x20] @ title_text @ w @ [0x28] @ credits_text @ [0x29] @ post \<and>
           m G_code = Some code_text \<and> m G_title = Some title_text \<and>
           m G_credits = Some credits_text \<and>
           title_text \<noteq> [] \<and> \<not> is_space (hd title_text) \<and> \<not> is_space (last title_text) \<and>
           0x28 \<notin> set (tl title_text) \<and> list_all is_space w \<and> 0x29 \<notin> set credits_text"
proof -
  let ?n = "length s"
  let ?c0 = "Map.empty :: caps"
  let ?X = "Seq (Group G_title (LazyPlus (Sym Dot))) tail_pattern"
  from re_match_SomeD [OF m] obtain s' rest where
    0: "matches ?n header_pattern s ?c0 = (s', m) # rest" by blast
  from seq_first [OF 0 [unfolded header_pattern_def]] obtain s1 c1 ys1 where
    b: "(s1, c1) \<in> set (matches ?n Bol s ?c0)" and
    1: "matches ?n (Seq (Group G_code code_pattern) (Seq (Plus (Sym Space)) ?X)) s1 c1 =
          (s', m) # ys1" by blast
  from b have s1: "s1 = s" "c1 = ?c0" by (auto simp: matches.simps(2) split: if_splits)
  from seq_first [OF 1] obtain s2 c2 ys2 where
    g: "(s2, c2) \<in> set (matches ?n (Group G_code code_pattern) s1 c1)" and
    2: "matches ?n (Seq (Plus (Sym Space)) ?X) s2 c2 = (s', m) # ys2" by blast
  from seq_first [OF 2] obtain s3 c3 ys3 where
    p: "(s3, c3) \<in> set (matches ?n (Plus (Sym Space)) s2 c2)" and
    3: "matches ?n ?X s3 c3 = (s', m) # ys3" by blast
  from lazy_group_first [OF 3] obtain j ys4 where
    j: "1 \<le> j" "j \<le> length (takeWhile (cls_match Dot) s3)" and
    4: "matches ?n tail_pattern (drop j s3) (c3(G_title \<mapsto> take j s3)) = (s', m) # ys4" and
    mn: "\<forall>i. 1 \<le> i \<and> i < j \<longrightarrow>
           matches ?n tail_pattern (drop i s3) (c3(G_title \<mapsto> take i s3)) = []"
    by blast
  \<comment> \<open>the pieces of the subject\<close>
  from matches_sound [OF g] obtain cd where
    cd: "s1 = cd @ s2" "derives (Group G_code code_pattern) cd c1 c2" by blast
  from cd(2) have c2: "c2 G_code = Some cd" by (auto elim!: derives_GroupE)
  from matches_sound [OF p] obtain w1 where
    w1: "s2 = w1 @ s3" "derives (Plus (Sym Space)) w1 c2 c3" by blast
  from derives_Plus_Sym [OF w1(2)] have w1': "c3 = c2" "w1 \<noteq> []" "list_all is_space w1"
    by (auto simp: list_all_iff)
  have "(s', m) \<in> set (matches ?n tail_pattern (drop j s3) (c3(G_title \<mapsto> take j s3)))"
    using 4 by simp
  from matches_sound [OF this] obtain v where
    v: "drop j s3 = v @ s'" "derives tail_pattern v (c3(G_title \<mapsto> take j s3)) m" by blast
  from derives_tail_pattern [OF v(2)] obtain w2 cr post where
    t: "v = w2 @ [0x28] @ cr @ [0x29] @ post" "list_all is_space w2" "0x29 \<notin> set cr"
       "m G_credits = Some cr" "m G_code = (c3(G_title \<mapsto> take j s3)) G_code"
       "m G_title = (c3(G_title \<mapsto> take j s3)) G_title"
    by blast
  let ?tt = "take j s3"
  have jl: "j \<le> length s3" using j(2) length_takeWhile_le [of "cls_match Dot" s3] by linarith
  have ltt: "length ?tt = j" using jl by simp
  have s3: "s3 = ?tt @ drop j s3" by simp
  have tt_ne: "?tt \<noteq> []" using j(1) jl by auto
  have caps: "m G_code = Some cd" "m G_title = Some ?tt" using t(5,6) w1'(1) c2 by auto
  have w1_sp: "w1 = [0x20]"
  proof -
    have "spaced (cd @ w1 @ s3)" using sp s1 cd(1) w1(1) by simp
    then show ?thesis using w1'(2,3) by (rule spaced_run)
  qed
  have dj: "drop j s3 = w2 @ 0x28 # (cr @ 0x29 # post @ s')" using v(1) t(1) by simp
  have whole: "s = cd @ [0x20] @ ?tt @ w2 @ [0x28] @ cr @ [0x29] @ (post @ s')"
  proof -
    have "s = cd @ w1 @ s3" using s1 cd(1) w1(1) by simp
    also have "s3 = ?tt @ w2 @ 0x28 # (cr @ 0x29 # post @ s')" using s3 dj by metis
    finally show ?thesis using w1_sp by simp
  qed
  have nl: "0x0A \<notin> set s" using sp by (rule spaced_no_newline)
  \<comment> \<open>the title does not begin with whitespace\<close>
  have hd_ns: "\<not> is_space (hd ?tt)"
  proof -
    obtain y ys where tt: "?tt = y # ys" using tt_ne by (cases ?tt) auto
    have "s = cd @ 0x20 # y # (ys @ w2 @ [0x28] @ cr @ [0x29] @ (post @ s'))"
      using whole by (simp add: tt)
    then have "adj_free (cd @ 0x20 # y # (ys @ w2 @ [0x28] @ cr @ [0x29] @ (post @ s')))"
      using sp by (simp add: spaced_def)
    from adj_free_mid [OF this is_space_32] show ?thesis by (simp add: tt)
  qed
  \<comment> \<open>an earlier candidate title with a group after it would have matched\<close>
  have no_paren: "s3 ! i \<noteq> 0x28" if i: "1 \<le> i" "i < j" for i
  proof
    assume a: "s3 ! i = 0x28"
    have il: "i < length s3" using i(2) jl by simp
    have di: "drop i s3 = 0x28 # drop (Suc i) s3" using il a by (simp add: Cons_nth_drop_Suc [symmetric])
    have sub: "drop (Suc i) s3 = take (j - Suc i) (drop (Suc i) s3) @ drop j s3"
    proof -
      have "drop j s3 = drop (j - Suc i) (drop (Suc i) s3)" using i(2) by simp
      then show ?thesis by (metis append_take_drop_id)
    qed
    have rp: "0x29 \<in> set (drop (Suc i) s3)" by (subst sub) (simp add: dj)
    have "set (drop (Suc i) s3) \<subseteq> set s3" by (rule set_drop_subset)
    moreover have "set s3 \<subseteq> set s" using s1 cd(1) w1(1) by auto
    ultimately have nl': "0x0A \<notin> set (drop (Suc i) s3)" using nl by blast
    have "matches ?n tail_pattern ([] @ 0x28 # drop (Suc i) s3) (c3(G_title \<mapsto> take i s3)) \<noteq> []"
      by (rule tail_complete [OF _ rp nl']) simp
    then have "matches ?n tail_pattern (drop i s3) (c3(G_title \<mapsto> take i s3)) \<noteq> []"
      using di by simp
    then show False using mn i by simp
  qed
  have tl_np: "0x28 \<notin> set (tl ?tt)"
  proof
    assume "0x28 \<in> set (tl ?tt)"
    then obtain k where k: "k < length (tl ?tt)" "tl ?tt ! k = 0x28"
      by (auto simp: in_set_conv_nth)
    have kj: "Suc k < j" using k(1) ltt by simp
    have "tl ?tt ! k = ?tt ! Suc k" using k(1) by (simp add: nth_tl)
    also have "\<dots> = s3 ! Suc k" using kj by simp
    finally have "s3 ! Suc k = 0x28" using k(2) by simp
    then show False using no_paren [of "Suc k"] kj by simp
  qed
  \<comment> \<open>the title does not end with whitespace: the shorter title would have matched\<close>
  have last_ns: "\<not> is_space (last ?tt)"
  proof (cases "j = 1")
    case True
    then have "length ?tt = 1" using ltt by simp
    then have "last ?tt = hd ?tt" by (cases ?tt) auto
    then show ?thesis using hd_ns by simp
  next
    case False
    then have j2: "2 \<le> j" using j(1) by simp
    let ?i = "j - 1"
    have i: "1 \<le> ?i" "?i < j" "Suc ?i = j" using j2 by simp_all
    have il: "?i < length s3" using i(2) jl by simp
    have lst: "last ?tt = s3 ! ?i"
      using tt_ne ltt by (simp add: last_conv_nth)
    show ?thesis
    proof
      assume "is_space (last ?tt)"
      then have spc: "is_space (s3 ! ?i)" using lst by simp
      have "drop ?i s3 = s3 ! ?i # drop (Suc ?i) s3" using il by (simp add: Cons_nth_drop_Suc)
      then have di': "drop ?i s3 = (s3 ! ?i # w2) @ 0x28 # (cr @ 0x29 # post @ s')"
        using dj i(3) by simp
      have sub': "set (cr @ 0x29 # post @ s') \<subseteq> set s" using whole by auto
      have "matches ?n tail_pattern ((s3 ! ?i # w2) @ 0x28 # (cr @ 0x29 # post @ s'))
              (c3(G_title \<mapsto> take ?i s3)) \<noteq> []"
      proof (rule tail_complete)
        show "list_all is_space (s3 ! ?i # w2)" using spc t(2) by simp
        show "0x29 \<in> set (cr @ 0x29 # post @ s')" by simp
        show "0x0A \<notin> set (cr @ 0x29 # post @ s')" using nl sub' by blast
      qed
      then have "matches ?n tail_pattern (drop ?i s3) (c3(G_title \<mapsto> take ?i s3)) \<noteq> []"
        using di' by simp
      then show False using mn i(1,2) by blast
    qed
  qed
  show ?thesis
    using whole caps t(2,3,4) tt_ne hd_ns last_ns tl_np by blast
qed

lemma emitted_record_shape:
  assumes "parse_header nfkc header = Inr (Some r)"
  shows "\<exists>code_text title_text w credits_text post.
           header_norm nfkc header =
             code_text @ [0x20] @ title_text @ w @ [0x28] @ credits_text @ [0x29] @ post \<and>
           code r = filter (\<lambda>x. x \<noteq> 0x20) code_text \<and>
           title r = Some title_text \<and> credits r = Some credits_text \<and>
           title_text \<noteq> [] \<and> \<not> is_space (hd title_text) \<and> \<not> is_space (last title_text) \<and>
           0x28 \<notin> set (tl title_text) \<and> list_all is_space w \<and> 0x29 \<notin> set credits_text"
proof -
  from parse_header_emitsD [OF assms] obtain m code_text where
    m: "re_match header_pattern (header_norm nfkc header) = Some m"
       "m G_code = Some code_text" "code r = filter (\<lambda>x. x \<noteq> 0x20) code_text"
       "title r = m G_title" "credits r = m G_credits" by blast
  from first_match_title [OF m(1) header_norm_spaced] obtain cd tt w cr post where
    f: "header_norm nfkc header = cd @ [0x20] @ tt @ w @ [0x28] @ cr @ [0x29] @ post"
       "m G_code = Some cd" "m G_title = Some tt" "m G_credits = Some cr"
       "tt \<noteq> []" "\<not> is_space (hd tt)" "\<not> is_space (last tt)"
       "0x28 \<notin> set (tl tt)" "list_all is_space w" "0x29 \<notin> set cr"
    by blast
  have "cd = code_text" using f(2) m(2) by simp
  then show ?thesis using f m(3,4,5) by metis
qed



text \<open>
  C10. Every emitted record has a title that is not empty and neither begins nor ends
  with whitespace, and credits with no closing parenthesis in them.
\<close>

theorem title_trimmed_credits_unclosed:
  assumes "parse_header nfkc header = Inr (Some r)"
  shows "\<exists>title_text credits_text.
           title r = Some title_text \<and> title_text \<noteq> [] \<and>
           \<not> is_space (hd title_text) \<and> \<not> is_space (last title_text) \<and>
           credits r = Some credits_text \<and> 0x29 \<notin> set credits_text"
  using emitted_record_shape [OF assms] by blast

theorem title_trimmed_credits_unclosed_witness:
  "\<exists>title_text credits_text.
     Some (of_ascii ''Advanced Landscape Topics'') = Some title_text \<and> title_text \<noteq> [] \<and>
     \<not> is_space (hd title_text) \<and> \<not> is_space (last title_text) \<and>
     Some (of_ascii ''5'') = Some credits_text \<and> 0x29 \<notin> set credits_text"
proof -
  have p: "parse_header nfkc_sample (of_ascii ''L ARCH 300  Advanced Landscape Topics   (5) I&S'') =
      Inr (Some \<lparr>code = of_ascii ''LARCH300'',
                 title = Some (of_ascii ''Advanced Landscape Topics''),
                 credits = Some (of_ascii ''5'')\<rparr>)"
    by (simp add: header_eval header_norm_def nfkc_sample_def)
  from title_trimmed_credits_unclosed [OF p] show ?thesis by simp
qed

subsection \<open>Whitespace in the raw header\<close>

lemma re_sub_ws_subject: "re_sub n (Plus (Sym Space)) repl s = re_sub n' (Plus (Sym Space)) repl s"
proof (induction s rule: measure_induct_rule [of length])
  case (less s)
  show ?case
  proof (cases s)
    case Nil
    then show ?thesis by (simp add: re_sub_ws_Nil)
  next
    case (Cons x xs)
    have "length (dropWhile is_space xs) < length s"
      using Cons length_dropWhile_le [of is_space xs] by simp
    then have 1: "re_sub n (Plus (Sym Space)) repl (dropWhile is_space xs) =
        re_sub n' (Plus (Sym Space)) repl (dropWhile is_space xs)" by (rule less.IH)
    have 2: "re_sub n (Plus (Sym Space)) repl xs = re_sub n' (Plus (Sym Space)) repl xs"
      by (rule less.IH) (simp add: Cons)
    show ?thesis by (simp add: Cons re_sub_ws_Cons 1 2)
  qed
qed

lemma re_sub_ws_run_front:
  assumes "w \<noteq> []" "list_all is_space w"
  shows "re_sub n (Plus (Sym Space)) repl (w @ y) =
         repl @ re_sub n (Plus (Sym Space)) repl (dropWhile is_space y)"
proof -
  obtain x w' where w: "w = x # w'" using assms(1) by (cases w) auto
  have "\<And>z. z \<in> set w' \<Longrightarrow> is_space z" using assms(2) by (simp add: w list_all_iff)
  then have "dropWhile is_space (w' @ y) = dropWhile is_space y" by (rule dropWhile_append2)
  then show ?thesis using assms(2) by (simp add: w re_sub_ws_Cons)
qed

lemma re_sub_ws_run:
  assumes w: "w \<noteq> []" "list_all is_space w"
  shows "re_sub n (Plus (Sym Space)) repl (p @ w @ q) =
         re_sub n (Plus (Sym Space)) repl (p @ [0x20] @ q)"
proof (induction p rule: measure_induct_rule [of length])
  case (less p)
  show ?case
  proof (cases p)
    case Nil
    have "re_sub n (Plus (Sym Space)) repl ([0x20] @ q) =
          repl @ re_sub n (Plus (Sym Space)) repl (dropWhile is_space q)"
      by (rule re_sub_ws_run_front) (simp_all add: is_space_32)
    then show ?thesis using re_sub_ws_run_front [OF w, of n repl q] by (simp add: Nil)
  next
    case (Cons x xs)
    show ?thesis
    proof (cases "is_space x")
      case False
      have "re_sub n (Plus (Sym Space)) repl (xs @ w @ q) =
            re_sub n (Plus (Sym Space)) repl (xs @ [0x20] @ q)"
        by (rule less.IH) (simp add: Cons)
      then show ?thesis using False by (simp add: Cons re_sub_ws_Cons)
    next
      case True
      show ?thesis
      proof (cases "list_all is_space xs")
        case True
        then have a: "\<And>z. z \<in> set xs \<Longrightarrow> is_space z" by (simp add: list_all_iff)
        have b: "\<And>z. z \<in> set w \<Longrightarrow> is_space z" using w(2) by (simp add: list_all_iff)
        have "dropWhile is_space (xs @ w @ q) = dropWhile is_space (w @ q)"
          using a by (rule dropWhile_append2)
        also have "\<dots> = dropWhile is_space q" using b by (rule dropWhile_append2)
        finally have 1: "dropWhile is_space (xs @ w @ q) = dropWhile is_space q" .
        have "dropWhile is_space (xs @ [0x20] @ q) = dropWhile is_space ([0x20] @ q)"
          using a by (rule dropWhile_append2)
        then have 2: "dropWhile is_space (xs @ [0x20] @ q) = dropWhile is_space q"
          by (simp add: is_space_32)
        show ?thesis using \<open>is_space x\<close> 1 2 by (simp add: Cons re_sub_ws_Cons)
      next
        case False
        then obtain z where z: "z \<in> set xs" "\<not> is_space z" by (auto simp: list_all_iff)
        then have 1: "dropWhile is_space (xs @ w @ q) = dropWhile is_space xs @ w @ q"
          by (simp add: dropWhile_append1)
        have 2: "dropWhile is_space (xs @ [0x20] @ q) = dropWhile is_space xs @ [0x20] @ q"
          using z by (simp add: dropWhile_append1)
        have "length (dropWhile is_space xs) < length p"
          using Cons length_dropWhile_le [of is_space xs] by simp
        then have "re_sub n (Plus (Sym Space)) repl (dropWhile is_space xs @ w @ q) =
                   re_sub n (Plus (Sym Space)) repl (dropWhile is_space xs @ [0x20] @ q)"
          by (rule less.IH)
        then show ?thesis using \<open>is_space x\<close> 1 2 by (simp add: Cons re_sub_ws_Cons)
      qed
    qed
  qed
qed

lemma replace1_append: "replace1 a r (s @ t) = replace1 a r s @ replace1 a r t"
  by (simp add: replace1_def)

lemma replace1_nbsp_spaces:
  "list_all is_space w \<Longrightarrow> list_all is_space (replace1 0xA0 [0x20] w)"
  by (induction w) (auto simp: replace1_def is_space_32)

lemma replace1_nbsp_Nil: "replace1 0xA0 [0x20] w = [] \<longleftrightarrow> w = []"
  by (cases w) (auto simp: replace1_def)

lemma post_run:
  assumes "w \<noteq> []" "list_all is_space w" "v \<noteq> []" "list_all is_space v"
  shows "strip (re_sub n (Plus (Sym Space)) [0x20] (replace1 0xA0 [0x20] (p @ w @ q))) =
         strip (re_sub n' (Plus (Sym Space)) [0x20] (replace1 0xA0 [0x20] (p @ v @ q)))"
proof -
  let ?R = "replace1 0xA0 [0x20]"
  have w': "?R w \<noteq> []" "list_all is_space (?R w)"
    using assms(1,2) by (simp_all add: replace1_nbsp_Nil replace1_nbsp_spaces)
  have v': "?R v \<noteq> []" "list_all is_space (?R v)"
    using assms(3,4) by (simp_all add: replace1_nbsp_Nil replace1_nbsp_spaces)
  have "re_sub n (Plus (Sym Space)) [0x20] (?R p @ ?R w @ ?R q) =
        re_sub n (Plus (Sym Space)) [0x20] (?R p @ [0x20] @ ?R q)"
    using w' by (rule re_sub_ws_run)
  moreover have "re_sub n (Plus (Sym Space)) [0x20] (?R p @ ?R v @ ?R q) =
        re_sub n (Plus (Sym Space)) [0x20] (?R p @ [0x20] @ ?R q)"
    using v' by (rule re_sub_ws_run)
  ultimately have "re_sub n (Plus (Sym Space)) [0x20] (?R (p @ w @ q)) =
        re_sub n (Plus (Sym Space)) [0x20] (?R (p @ v @ q))"
    by (simp add: replace1_append)
  then show ?thesis using re_sub_ws_subject [of n' "[0x20]" "?R (p @ v @ q)" n] by simp
qed

lemma nfkc_Nil:
  assumes "nfkc_keeps_whitespace nfkc"
  shows "nfkc [] = []"
proof -
  have "nfkc ([] @ 0x20 # []) = nfkc [] @ nfkc [0x20] @ nfkc []"
    using assms is_space_32 unfolding nfkc_keeps_whitespace_def by blast
  then have "length (nfkc [0x20]) = length (nfkc [] @ nfkc [0x20] @ nfkc [])" by simp
  then show ?thesis by simp
qed

lemma nfkc_run:
  assumes k: "nfkc_keeps_whitespace nfkc" and w: "w \<noteq> []" "list_all is_space w"
  shows "nfkc (a @ w @ b) = nfkc a @ nfkc w @ nfkc b \<and> list_all is_space (nfkc w) \<and>
         nfkc w \<noteq> []"
  using w
proof (induction w arbitrary: a rule: list_nonempty_induct)
  case (single x)
  then have x: "is_space x" by simp
  have "nfkc (a @ x # b) = nfkc a @ nfkc [x] @ nfkc b"
    using k x unfolding nfkc_keeps_whitespace_def by blast
  moreover have "nfkc [x] \<noteq> []" "list_all is_space (nfkc [x])"
    using k x unfolding nfkc_keeps_whitespace_def by blast+
  ultimately show ?case by simp
next
  case (cons x w)
  then have x: "is_space x" and w: "list_all is_space w" by simp_all
  have h1: "nfkc (a @ x # b) = nfkc a @ nfkc [x] @ nfkc b" for a b
    using k x unfolding nfkc_keeps_whitespace_def by blast
  have h2: "nfkc [x] \<noteq> []" "list_all is_space (nfkc [x])"
    using k x unfolding nfkc_keeps_whitespace_def by blast+
  have 1: "nfkc (a @ (x # w) @ b) = nfkc a @ nfkc [x] @ nfkc (w @ b)"
    using h1 [of a "w @ b"] by simp
  have 2: "nfkc (w @ b) = nfkc w @ nfkc b"
    using cons.IH [OF w, of "[]"] by (simp add: nfkc_Nil [OF k])
  have 3: "nfkc (x # w) = nfkc [x] @ nfkc w"
    using h1 [of "[]" w] by (simp add: nfkc_Nil [OF k])
  have 4: "list_all is_space (nfkc w)" using cons.IH [OF w, of "[]"] by simp
  show ?case using 1 2 3 4 h2 by simp
qed

lemma header_norm_run:
  assumes k: "nfkc_keeps_whitespace nfkc" and w: "w \<noteq> []" "list_all is_space w"
  shows "header_norm nfkc (p @ 0x20 # q) = header_norm nfkc (p @ w @ q)"
proof -
  have s: "[0x20::nat] \<noteq> []" "list_all is_space [0x20::nat]" by (simp_all add: is_space_32)
  from nfkc_run [OF k s, of p q]
  have 1: "nfkc (p @ 0x20 # q) = nfkc p @ nfkc [0x20] @ nfkc q"
    "list_all is_space (nfkc [0x20])" "nfkc [0x20] \<noteq> []" by simp_all
  from nfkc_run [OF k w, of p q]
  have 2: "nfkc (p @ w @ q) = nfkc p @ nfkc w @ nfkc q"
    "list_all is_space (nfkc w)" "nfkc w \<noteq> []" by simp_all
  show ?thesis
    unfolding header_norm_def Let_def 1(1) 2(1)
    by (rule post_run [OF 1(3) 1(2) 2(3) 2(2)])
qed

lemma ws_variant_norm:
  assumes k: "nfkc_keeps_whitespace nfkc"
  shows "ws_variant s t \<Longrightarrow> header_norm nfkc (p @ s) = header_norm nfkc (p @ t)"
proof (induction arbitrary: p rule: ws_variant.induct)
  case v_Nil
  show ?case by simp
next
  case (v_Keep s t x)
  from v_Keep.IH [of "p @ [x]"] show ?case by simp
next
  case (v_Repl s t w)
  have "header_norm nfkc (p @ 0x20 # s) = header_norm nfkc (p @ w @ s)"
    using k v_Repl.hyps(2,3) by (rule header_norm_run)
  also have "\<dots> = header_norm nfkc (p @ w @ t)"
    using v_Repl.IH [of "p @ w"] by simp
  finally show ?case .
qed

text \<open>
  C5. Two raw header lines of which one is the other with plain spaces replaced by
  non-breaking spaces or by runs of whitespace have the same normalised header, and so
  the same outcome of the match and of the parse; what is asked of the library's
  compatibility normalisation is that whitespace is a boundary for it and stays
  whitespace.
\<close>

theorem whitespace_variants_normalize_alike:
  assumes "nfkc_keeps_whitespace nfkc" and "ws_variant s t"
  shows "header_norm nfkc s = header_norm nfkc t \<and>
         re_match header_pattern (header_norm nfkc s) =
           re_match header_pattern (header_norm nfkc t) \<and>
         parse_header nfkc s = parse_header nfkc t"
proof -
  have "header_norm nfkc s = header_norm nfkc t"
    using ws_variant_norm [OF assms, of "[]"] by simp
  then show ?thesis by (simp add: parse_header_def)
qed

lemma ws_variant_word: "ws_variant s t \<Longrightarrow> ws_variant (u @ s) (u @ t)"
  by (induction u) (auto intro: v_Keep)

lemma nfkc_sample_keeps_whitespace: "nfkc_keeps_whitespace nfkc_sample"
  unfolding nfkc_keeps_whitespace_def
  by (auto simp: nfkc_sample_def is_space_def)

theorem whitespace_variants_normalize_alike_witness:
  "header_norm nfkc_sample (of_ascii ''ANTH'' @ [0xA0] @ of_ascii ''100'' @ [0x20, 0x09, 0x20] @
       of_ascii ''Intro'' @ [0x2003] @ of_ascii ''(5)'') = of_ascii ''ANTH 100 Intro (5)'' \<and>
   parse_header nfkc_sample (of_ascii ''ANTH'' @ [0xA0] @ of_ascii ''100'' @ [0x20, 0x09, 0x20] @
       of_ascii ''Intro'' @ [0x2003] @ of_ascii ''(5)'') =
     Inr (Some \<lparr>code = of_ascii ''ANTH100'', title = Some (of_ascii ''Intro''),
                credits = Some (of_ascii ''5'')\<rparr>)"
proof -
  let ?s = "of_ascii ''ANTH'' @ 0x20 # of_ascii ''100'' @ 0x20 # of_ascii ''Intro'' @ 0x20 #
            of_ascii ''(5)''"
  let ?t = "of_ascii ''ANTH'' @ [0xA0] @ of_ascii ''100'' @ [0x20, 0x09, 0x20] @
            of_ascii ''Intro'' @ [0x2003] @ of_ascii ''(5)''"
  have "ws_variant (of_ascii ''(5)'') (of_ascii ''(5)'')"
    using ws_variant_word [OF v_Nil, of "of_ascii ''(5)''"] by simp
  then have "ws_variant (0x20 # of_ascii ''(5)'') ([0x2003] @ of_ascii ''(5)'')"
    by (rule v_Repl) (simp_all add: is_space_def)
  then have "ws_variant (of_ascii ''Intro'' @ 0x20 # of_ascii ''(5)'')
      (of_ascii ''Intro'' @ [0x2003] @ of_ascii ''(5)'')" by (rule ws_variant_word)
  then have "ws_variant (0x20 # of_ascii ''Intro'' @ 0x20 # of_ascii ''(5)'')
      ([0x20, 0x09, 0x20] @ of_ascii ''Intro'' @ [0x2003] @ of_ascii ''(5)'')"
    by (rule v_Repl) (simp_all add: is_space_def)
  then have "ws_variant (of_ascii ''100'' @ 0x20 # of_ascii ''Intro'' @ 0x20 # of_ascii ''(5)'')
      (of_ascii ''100'' @ [0x20, 0x09, 0x20] @ of_ascii ''Intro'' @ [0x2003] @ of_ascii ''(5)'')"
    by (rule ws_variant_word)
  then have "ws_variant (0x20 # of_ascii ''100'' @ 0x20 # of_ascii ''Intro'' @ 0x20 # of_ascii ''(5)'')
      ([0xA0] @ of_ascii ''100'' @ [0x20, 0x09, 0x20] @ of_ascii ''Intro'' @ [0x2003] @
       of_ascii ''(5)'')"
    by (rule v_Repl) (simp_all add: is_space_def)
  then have v: "ws_variant ?s ?t" by (rule ws_variant_word)
  have n: "header_norm nfkc_sample ?s = of_ascii ''ANTH 100 Intro (5)''"
    by (simp add: header_eval header_norm_def nfkc_sample_def)
  have p: "parse_header nfkc_sample ?s =
     Inr (Some \<lparr>code = of_ascii ''ANTH100'', title = Some (of_ascii ''Intro''),
                credits = Some (of_ascii ''5'')\<rparr>)"
    by (simp add: header_eval header_norm_def nfkc_sample_def)
  from whitespace_variants_normalize_alike [OF nfkc_sample_keeps_whitespace v] n p
  show ?thesis by simp
qed

end
